theory Spec2Isabelle
  imports Complex_Main
begin

section \<open>Python text primitives used by the extractor\<close>

text \<open>
  Python \<open>str\<close> values are modelled as \<^typ>\<open>string\<close>; one \<^typ>\<open>char\<close> stands for one
  code point below 256. The three characters that cannot be written inside a string
  literal get a name.
\<close>

abbreviation NL :: char where "NL \<equiv> CHR 0x0A"
abbreviation DQUOTE :: char where "DQUOTE \<equiv> CHR 0x22"
abbreviation BACKSLASH :: char where "BACKSLASH \<equiv> CHR 0x5C"

text \<open>
  \<open>str.isspace\<close> on one code point, which is also the class \<open>\s\<close> of \<open>re\<close> on \<open>str\<close>
  patterns: TAB..CR, FS..US, space, NEL and NBSP.
\<close>

definition isspace :: "char \<Rightarrow> bool" where
  "isspace c =
     (let n = (of_char c :: nat)
      in (9 \<le> n \<and> n \<le> 13) \<or> (28 \<le> n \<and> n \<le> 32) \<or> n = 133 \<or> n = 160)"

definition lstrip :: "string \<Rightarrow> string" where
  "lstrip s = dropWhile isspace s"

definition rstrip :: "string \<Rightarrow> string" where
  "rstrip s = rev (dropWhile isspace (rev s))"

definition strip :: "string \<Rightarrow> string" where
  "strip s = rstrip (lstrip s)"

definition startswith :: "string \<Rightarrow> string \<Rightarrow> bool" where
  "startswith s p = (take (length p) s = p)"

definition endswith :: "string \<Rightarrow> string \<Rightarrow> bool" where
  "endswith s p = (length p \<le> length s \<and> drop (length s - length p) s = p)"

text \<open>\<open>s.split('\n')\<close>: always at least one piece.\<close>

fun split_nl :: "string \<Rightarrow> string list" where
  "split_nl [] = [[]]"
| "split_nl (c # cs) =
     (if c = NL then [] # split_nl cs
      else (case split_nl cs of l # ls \<Rightarrow> (c # l) # ls | [] \<Rightarrow> [[c]]))"

text \<open>\<open>str(n)\<close> and the format \<open>{n:03d}\<close> for an integer.\<close>

fun str_nat :: "nat \<Rightarrow> string" where
  "str_nat n =
     (if n < 10 then [char_of (48 + n)]
      else str_nat (n div 10) @ [char_of (48 + n mod 10)])"

declare str_nat.simps [simp del]

definition str_int :: "int \<Rightarrow> string" where
  "str_int n = (if n < 0 then CHR ''-'' # str_nat (nat (- n)) else str_nat (nat n))"

definition format_03d :: "int \<Rightarrow> string" where
  "format_03d n =
     (if n < 0
      then CHR ''-'' # replicate (2 - length (str_nat (nat (- n)))) CHR ''0'' @ str_nat (nat (- n))
      else replicate (3 - length (str_nat (nat n))) CHR ''0'' @ str_nat (nat n))"

text \<open>Exceptions are values; a function that may raise returns \<open>exn + 'a\<close>.\<close>

datatype exn =
    RateLimitError
  | APIError
  | IndexError
  | AttributeError
  | ValueError string
  | OtherException

section \<open>validate.py\<close>

definition VALID_PREDICATES :: "string list" where
  "VALID_PREDICATES = [''concept'', ''relates'', ''example'', ''formula'']"

subsection \<open>FACT_PATTERN\<close>

text \<open>
  The pattern is \<^verbatim>\<open>^([a-z_][a-z0-9_]*)\s*\((.*)\)\s*\.\s*$\<close> with \<open>re.IGNORECASE\<close>.
  Below 256 the class \<open>[a-z_]\<close> under IGNORECASE is the ASCII letters and the underscore.
\<close>

definition is_ident_start :: "char \<Rightarrow> bool" where
  "is_ident_start c =
     (let n = (of_char c :: nat)
      in (97 \<le> n \<and> n \<le> 122) \<or> (65 \<le> n \<and> n \<le> 90) \<or> n = 95)"

definition is_ident_char :: "char \<Rightarrow> bool" where
  "is_ident_char c =
     (let n = (of_char c :: nat) in is_ident_start c \<or> (48 \<le> n \<and> n \<le> 57))"

text \<open>
  \<open>FACT_PATTERN.match(line)\<close>: \<open>None\<close>, or the two groups. No character of the
  identifier class is a space or a parenthesis, and neither \<open>.\<close> nor \<open>)\<close> is a space, so
  every greedy piece of the pattern has one possible extent: the identifier and the spaces
  after it are read from the left, the final spaces, the period, the spaces before it and
  the closing parenthesis from the right. What is left in the middle is group 2, which
  \<open>.*\<close> matches when it holds no line feed. The \<open>$\<close> before a final line feed is covered
  by the last \<open>\s*\<close>.
\<close>

definition FACT_PATTERN_match :: "string \<Rightarrow> (string \<times> string) option" where
  "FACT_PATTERN_match s =
     (case s of
        [] \<Rightarrow> None
      | c # _ \<Rightarrow>
          if \<not> is_ident_start c then None
          else
            (case dropWhile isspace (dropWhile is_ident_char s) of
               [] \<Rightarrow> None
             | p # r \<Rightarrow>
                 if p \<noteq> CHR ''('' then None
                 else
                   (case dropWhile isspace (rev r) of
                      [] \<Rightarrow> None
                    | d # r1 \<Rightarrow>
                        if d \<noteq> CHR ''.'' then None
                        else
                          (case dropWhile isspace r1 of
                             [] \<Rightarrow> None
                           | q # r2 \<Rightarrow>
                               if q \<noteq> CHR '')'' \<or> NL \<in> set r2 then None
                               else Some (takeWhile is_ident_char s, rev r2)))))"

text \<open>\<open>match.group(1)\<close>; on \<open>None\<close> the attribute access raises.\<close>

fun group1 :: "(string \<times> string) option \<Rightarrow> exn + string" where
  "group1 None = Inl AttributeError"
| "group1 (Some (g1, g2)) = Inr g1"

subsection \<open>check_balanced_parens\<close>

text \<open>
  The three local variables of the scan, and one pass of the loop body over a character:
  \<open>None\<close> is the early \<open>return False\<close>.
\<close>

record scan =
  count :: int
  in_string :: bool
  escape_next :: bool

definition scan_init :: scan where
  "scan_init = \<lparr>count = 0, in_string = False, escape_next = False\<rparr>"

definition scan_char :: "char \<Rightarrow> scan \<Rightarrow> scan option" where
  "scan_char c st =
     (if escape_next st then Some (st\<lparr>escape_next := False\<rparr>)
      else if c = BACKSLASH then Some (st\<lparr>escape_next := True\<rparr>)
      else if c = DQUOTE \<and> \<not> escape_next st then Some (st\<lparr>in_string := \<not> in_string st\<rparr>)
      else if in_string st then Some st
      else if c = CHR ''('' then Some (st\<lparr>count := count st + 1\<rparr>)
      else if c = CHR '')'' then
        (if count st - 1 < 0 then None else Some (st\<lparr>count := count st - 1\<rparr>))
      else Some st)"

fun scan_chars :: "string \<Rightarrow> scan \<Rightarrow> scan option" where
  "scan_chars [] st = Some st"
| "scan_chars (c # cs) st =
     (case scan_char c st of None \<Rightarrow> None | Some st' \<Rightarrow> scan_chars cs st')"

definition check_balanced_parens :: "string \<Rightarrow> bool" where
  "check_balanced_parens text =
     (case scan_chars text scan_init of None \<Rightarrow> False | Some st \<Rightarrow> count st = 0)"

subsection \<open>parse_prolog_string\<close>

function parse_prolog_string_loop :: "string \<Rightarrow> nat \<Rightarrow> string \<Rightarrow> exn + (string \<times> nat)" where
  "parse_prolog_string_loop s i result =
     (if i < length s then
        (if s ! i = DQUOTE then
           (if i + 1 < length s \<and> s ! (i + 1) = DQUOTE
            then parse_prolog_string_loop s (i + 2) (result @ [DQUOTE])
            else Inr (result, i + 1))
         else if s ! i = BACKSLASH \<and> i + 1 < length s
           then parse_prolog_string_loop s (i + 2) (result @ [s ! (i + 1)])
         else parse_prolog_string_loop s (i + 1) (result @ [s ! i]))
      else Inl (ValueError ''Unterminated string''))"
  by pat_completeness auto
termination
  by (relation "measure (\<lambda>(s, i, result). length s - i)") auto

text \<open>The equation of the loop is used by hand: as a rewrite rule it unfolds without end.\<close>

declare parse_prolog_string_loop.simps [simp del]

definition parse_prolog_string :: "string \<Rightarrow> exn + (string \<times> nat)" where
  "parse_prolog_string s =
     (if \<not> startswith s [DQUOTE] then Inl (ValueError ''String must start with quote'')
      else parse_prolog_string_loop s 1 [])"

subsection \<open>validate_fact and validate_prolog_syntax\<close>

definition validate_fact :: "string \<Rightarrow> exn + (bool \<times> string)" where
  "validate_fact line0 =
     (let line = strip line0 in
      if line = [] \<or> startswith line ''%'' then Inr (True, [])
      else if \<not> check_balanced_parens line then Inr (False, ''Unbalanced parentheses'')
      else
        (let m = FACT_PATTERN_match line in
         if m = None then Inr (False, ''Invalid fact syntax: '' @ take 50 line @ ''...'')
         else
           (case group1 m of
              Inl e \<Rightarrow> Inl e
            | Inr predicate \<Rightarrow>
                if predicate \<notin> set VALID_PREDICATES
                  then Inr (False, ''Unknown predicate: '' @ predicate)
                else if \<not> endswith (rstrip line) ''.''
                  then Inr (False, ''Fact must end with period'')
                else Inr (True, []))))"

text \<open>The loop of \<open>validate_prolog_syntax\<close> over the lines (\<open>has_facts\<close> is never read).\<close>

fun validate_lines :: "string list \<Rightarrow> exn + bool" where
  "validate_lines [] = Inr True"
| "validate_lines (l # ls) =
     (let line = strip l in
      if line = [] \<or> startswith line ''%'' then validate_lines ls
      else
        (case validate_fact line of
           Inl e \<Rightarrow> Inl e
         | Inr (is_valid, error) \<Rightarrow> if \<not> is_valid then Inr False else validate_lines ls))"

definition validate_prolog_syntax :: "string \<Rightarrow> exn + bool" where
  "validate_prolog_syntax prolog_text = validate_lines (split_nl (strip prolog_text))"

section \<open>extract.py\<close>

subsection \<open>The files, the generation service and what the run does\<close>

text \<open>
  What the run prints, the seconds it sleeps and the requests it sends, in order.
\<close>

datatype event =
    PrintResuming int
  | PrintRange int int int
  | PrintPage int int
  | PrintSkip int
  | PrintError int exn
  | PrintInvalid int
  | PrintOk int
  | PrintRateLimit int
  | PrintComplete
  | Sleep rat
  | Request int

text \<open>
  \<open>state_file\<close> is the \<open>current_page\<close> stored in \<open>state.json\<close>, \<open>knowledge\<close> the text of
  \<open>output/knowledge.pl\<close> (\<open>None\<close>: the file does not exist), \<open>raw_files\<close> the files of
  \<open>output/raw\<close> by name, \<open>calls\<close> the number of requests sent so far.
\<close>

record world =
  state_file :: "int option"
  knowledge :: "string option"
  raw_files :: "string \<rightharpoonup> string"
  calls :: nat
  trace :: "event list"

definition emit :: "event \<Rightarrow> world \<Rightarrow> world" where
  "emit e w = w\<lparr>trace := trace w @ [e]\<rparr>"

definition sleep :: "rat \<Rightarrow> world \<Rightarrow> world" where
  "sleep d w = emit (Sleep d) w"

definition load_state :: "world \<Rightarrow> int" where
  "load_state w = (case state_file w of Some p \<Rightarrow> p | None \<Rightarrow> 1)"

definition save_state :: "int \<Rightarrow> world \<Rightarrow> world" where
  "save_state page_num w = w\<lparr>state_file := Some page_num\<rparr>"

definition log_skip :: "int \<Rightarrow> world \<Rightarrow> world" where
  "log_skip page_num w = emit (PrintSkip page_num) w"

definition log_error :: "int \<Rightarrow> exn \<Rightarrow> world \<Rightarrow> world" where
  "log_error page_num error w = emit (PrintError page_num error) w"

definition log_invalid_output :: "int \<Rightarrow> string \<Rightarrow> world \<Rightarrow> world" where
  "log_invalid_output page_num output w = emit (PrintInvalid page_num) w"

definition raw_path :: "int \<Rightarrow> string" where
  "raw_path page_num = ''output/raw/page_'' @ format_03d page_num @ ''.txt''"

definition save_raw_response :: "int \<Rightarrow> string \<Rightarrow> world \<Rightarrow> world" where
  "save_raw_response page_num response w =
     w\<lparr>raw_files := (raw_files w)(raw_path page_num \<mapsto> response)\<rparr>"

definition append_to_knowledge_base :: "string \<Rightarrow> world \<Rightarrow> world" where
  "append_to_knowledge_base prolog_facts w =
     w\<lparr>knowledge :=
         Some ((case knowledge w of None \<Rightarrow> [] | Some k \<Rightarrow> k) @ prolog_facts
               @ (if \<not> endswith prolog_facts [NL] then [NL] else []))\<rparr>"

definition KNOWLEDGE_HEADER :: string where
  "KNOWLEDGE_HEADER =
     concat (map (\<lambda>l. l @ [NL])
       [''%% Game Theory Knowledge Base'',
        ''%% Extracted from game-theory-101.pdf'',
        [],
        '':- dynamic concept/3.'',
        '':- dynamic relates/3.'',
        '':- dynamic example/3.'',
        '':- dynamic formula/3.'',
        [],
        ''%% Relation types (declared as facts for validation):'',
        ''valid_relation_type(requires).    % A requires B'',
        ''valid_relation_type(illustrates). % A exemplifies B'',
        ''valid_relation_type(contrasts).   % A opposes B'',
        ''valid_relation_type(extends).     % A generalizes B'',
        ''valid_relation_type(contains).    % A includes B'',
        [],
        ''%% === Extracted Facts ==='',
        []])"

definition init_knowledge_base :: "world \<Rightarrow> world" where
  "init_knowledge_base w =
     (if knowledge w = None then w\<lparr>knowledge := Some KNOWLEDGE_HEADER\<rparr> else w)"

text \<open>
  The generation service is outside the program: request number \<open>n\<close> of the run, for a
  page text and a page number, returns a text or raises. \<open>RateLimitError\<close> is a subclass
  of \<open>APIError\<close> in the client library; here \<open>APIError\<close> stands for the other members of
  that class and \<open>OtherException\<close> for anything outside it.
\<close>

datatype api_result = Response string | Raises exn

type_synonym service = "nat \<Rightarrow> string \<Rightarrow> int \<Rightarrow> api_result"

definition call_claude :: "service \<Rightarrow> string \<Rightarrow> int \<Rightarrow> world \<Rightarrow> api_result \<times> world" where
  "call_claude srv page_text page_num w =
     (srv (calls w) page_text page_num,
      w\<lparr>calls := calls w + 1, trace := trace w @ [Request page_num]\<rparr>)"

text \<open>\<open>reader.pages[i]\<close>: a negative index counts from the end, out of range raises.\<close>

definition pages_index :: "string list \<Rightarrow> int \<Rightarrow> exn + string" where
  "pages_index pages i =
     (let n = int (length pages); j = (if i < 0 then n + i else i)
      in if 0 \<le> j \<and> j < n then Inr (pages ! nat j) else Inl IndexError)"

text \<open>\<open>range(a, b)\<close>.\<close>

definition range_py :: "int \<Rightarrow> int \<Rightarrow> int list" where
  "range_py a b = [a .. b - 1]"

subsection \<open>process_pdf\<close>

text \<open>
  A run ends normally (\<open>None\<close>) or with the exception that leaves it, and in both cases
  in the world it has produced. First the body of the \<open>try\<close> after the request has
  returned; it ends with \<open>break\<close>.
\<close>

definition handle_response :: "int \<Rightarrow> string \<Rightarrow> world \<Rightarrow> exn option \<times> world" where
  "handle_response current_page prolog_facts w =
     (let facts_with_marker =
            [NL] @ ''% === Page '' @ str_int current_page @ '' ==='' @ [NL] @ prolog_facts
      in case validate_prolog_syntax prolog_facts of
           Inl e \<Rightarrow> (Some e, w)
         | Inr valid \<Rightarrow>
             if valid then
               (None, emit (PrintOk current_page)
                        (save_state current_page
                          (append_to_knowledge_base facts_with_marker w)))
             else
               (None, save_state current_page
                        (save_raw_response current_page prolog_facts
                          (log_invalid_output current_page prolog_facts w))))"

text \<open>
  \<open>for attempt in range(max_retries)\<close>, over the attempts that remain. The loop is left
  by the \<open>break\<close>, by an exception, or when no attempt remains.
\<close>

fun attempt_loop ::
  "service \<Rightarrow> int \<Rightarrow> string \<Rightarrow> int \<Rightarrow> int list \<Rightarrow> world \<Rightarrow> exn option \<times> world" where
  "attempt_loop srv max_retries text page_num [] w = (None, w)"
| "attempt_loop srv max_retries text page_num (attempt # rest) w =
     (let current_page = page_num + 1 in
      case call_claude srv text current_page w of
        (Response prolog_facts, w1) \<Rightarrow> handle_response current_page prolog_facts w1
      | (Raises e, w1) \<Rightarrow>
          if e = RateLimitError then
            (let wait_time = 2 ^ nat attempt
             in attempt_loop srv max_retries text page_num rest
                  (sleep (of_int wait_time) (emit (PrintRateLimit wait_time) w1)))
          else if e = APIError then
            (let w2 = save_state page_num (log_error current_page e w1)
             in if attempt = max_retries - 1 then (Some e, w2)
                else attempt_loop srv max_retries text page_num rest w2)
          else (Some e, w1))"

text \<open>\<open>for page_num in range(start_page - 1, end_page)\<close>, over the indices that remain.\<close>

fun page_loop ::
  "service \<Rightarrow> string list \<Rightarrow> int \<Rightarrow> int \<Rightarrow> int list \<Rightarrow> world \<Rightarrow> exn option \<times> world" where
  "page_loop srv pages total_pages max_retries [] w = (None, w)"
| "page_loop srv pages total_pages max_retries (page_num # rest) w =
     (let current_page = page_num + 1;
          w1 = emit (PrintPage current_page total_pages) w
      in case pages_index pages page_num of
           Inl e \<Rightarrow> (Some e, w1)
         | Inr text \<Rightarrow>
             if text = [] \<or> length text < 50 then
               page_loop srv pages total_pages max_retries rest
                 (save_state current_page (log_skip current_page w1))
             else
               (case attempt_loop srv max_retries text page_num (range_py 0 max_retries) w1 of
                  (Some e, w2) \<Rightarrow> (Some e, w2)
                | (None, w2) \<Rightarrow>
                    page_loop srv pages total_pages max_retries rest (sleep (1 / 2) w2)))"

definition process_pdf ::
  "service \<Rightarrow> string list \<Rightarrow> int option \<Rightarrow> int option \<Rightarrow> world \<Rightarrow> exn option \<times> world" where
  "process_pdf srv pages start_page_arg max_pages w =
     (let (start_page, w1) =
            (case start_page_arg of
               None \<Rightarrow>
                 (load_state w,
                  if load_state w > 1 then emit (PrintResuming (load_state w)) w else w)
             | Some p \<Rightarrow> (p, w));
          total_pages = int (length pages);
          end_page =
            (case max_pages of
               None \<Rightarrow> total_pages
             | Some m \<Rightarrow> if m \<noteq> 0 then min (start_page + m - 1) total_pages else total_pages);
          max_retries = 3;
          w2 = init_knowledge_base (emit (PrintRange start_page end_page total_pages) w1)
      in case page_loop srv pages total_pages max_retries
                (range_py (start_page - 1) end_page) w2 of
           (Some e, w3) \<Rightarrow> (Some e, w3)
         | (None, w3) \<Rightarrow> (None, emit PrintComplete w3))"

text \<open>The pages the run has started on, in order, read off what it printed.\<close>

fun pages_started :: "event list \<Rightarrow> int list" where
  "pages_started [] = []"
| "pages_started (PrintPage p n # es) = p # pages_started es"
| "pages_started (e # es) = pages_started es"

section \<open>Notions of the specification\<close>

text \<open>
  The specification's reading of the parenthesis check, written without the scanner. A
  character of a text lies outside the quoted-string spans when it is not a quote and an
  even number of quotes comes before it; \<open>outside_strings\<close> keeps these characters.
  \<open>paren_depth\<close> is the number of opening minus the number of closing parentheses of
  a text, that is the value of the open-parenthesis counter after it. The counter never
  goes negative along a text when it is not negative after any prefix of it, and
  \<open>spec_counter_ok\<close> says that it never goes negative and is zero at the end.
\<close>

definition outside_strings :: "string \<Rightarrow> string" where
  "outside_strings s =
     map (\<lambda>i. s ! i)
       (filter (\<lambda>i. s ! i \<noteq> DQUOTE \<and> even (count_list (take i s) DQUOTE))
          [0..<length s])"

definition paren_depth :: "string \<Rightarrow> int" where
  "paren_depth cs = int (count_list cs CHR ''('') - int (count_list cs CHR '')'')"

definition never_negative :: "string \<Rightarrow> bool" where
  "never_negative cs = (\<forall>n \<le> length cs. 0 \<le> paren_depth (take n cs))"

definition spec_counter_ok :: "string \<Rightarrow> bool" where
  "spec_counter_ok cs = (never_negative cs \<and> paren_depth cs = 0)"

text \<open>
  What the scanner makes of backslashes, which the specification does not speak of: a
  text with every backslash taken out together with the character after it.
\<close>

fun unescaped :: "string \<Rightarrow> string" where
  "unescaped [] = []"
| "unescaped [c] = (if c = BACKSLASH then [] else [c])"
| "unescaped (c # d # cs) = (if c = BACKSLASH then unescaped cs else c # unescaped (d # cs))"

text \<open>
  The shape \<open>concept(X, N, "S").\<close> of the specification: a snake-case identifier, an
  integer literal, and a text in which every quote character is one of a pair.
\<close>

definition is_snake_case :: "string \<Rightarrow> bool" where
  "is_snake_case x =
     (x \<noteq> [] \<and> (let n = (of_char (hd x) :: nat) in (97 \<le> n \<and> n \<le> 122) \<or> n = 95)
      \<and> (\<forall>c \<in> set x. let n = (of_char c :: nat)
                        in (97 \<le> n \<and> n \<le> 122) \<or> (48 \<le> n \<and> n \<le> 57) \<or> n = 95))"

definition is_digits :: "string \<Rightarrow> bool" where
  "is_digits ds = (ds \<noteq> [] \<and> (\<forall>c \<in> set ds. let n = (of_char c :: nat) in 48 \<le> n \<and> n \<le> 57))"

definition is_integer_literal :: "string \<Rightarrow> bool" where
  "is_integer_literal n =
     (case n of [] \<Rightarrow> False | c # ds \<Rightarrow> if c = CHR ''-'' then is_digits ds else is_digits n)"

fun quotes_doubled :: "string \<Rightarrow> bool" where
  "quotes_doubled [] = True"
| "quotes_doubled [c] = (c \<noteq> DQUOTE)"
| "quotes_doubled (c # d # cs) =
     (if c = DQUOTE then d = DQUOTE \<and> quotes_doubled cs else quotes_doubled (d # cs))"

definition concept_fact :: "string \<Rightarrow> string \<Rightarrow> string \<Rightarrow> string" where
  "concept_fact x n s =
     ''concept('' @ x @ '', '' @ n @ '', '' @ [DQUOTE] @ s @ [DQUOTE] @ '').''"

text \<open>A line that \<open>validate_prolog_syntax\<close> passes over: empty after stripping, or a comment.\<close>

definition skipped_line :: "string \<Rightarrow> bool" where
  "skipped_line l = (strip l = [] \<or> startswith (strip l) ''%'')"

text \<open>
  A malformed line: one that is neither blank nor a comment and fails a check of the
  validator, which are the parenthesis balance, the shape \<open>FACT_PATTERN\<close>, the predicate
  name and the final period.
\<close>

definition malformed_line :: "string \<Rightarrow> bool" where
  "malformed_line l =
     (let line = strip l in
      line \<noteq> [] \<and> \<not> startswith line ''%'' \<and>
      (\<not> check_balanced_parens line
       \<or> (case FACT_PATTERN_match line of
             None \<Rightarrow> True
           | Some (predicate, args) \<Rightarrow> predicate \<notin> set VALID_PREDICATES)
       \<or> \<not> endswith line ''.''))"

text \<open>A character the scanner gives no meaning to.\<close>

definition plain_char :: "char \<Rightarrow> bool" where
  "plain_char c = (c \<noteq> BACKSLASH \<and> c \<noteq> DQUOTE \<and> c \<noteq> CHR ''('' \<and> c \<noteq> CHR '')'')"

text \<open>
  What a page whose requests are all answered by a rate-limit error leaves in the trace:
  per attempt the request, the message and the wait of \<open>2 ** attempt\<close> seconds.
\<close>

definition backoff_events :: "int \<Rightarrow> int list \<Rightarrow> event list" where
  "backoff_events current_page attempts =
     concat (map (\<lambda>a. [Request current_page, PrintRateLimit (2 ^ nat a),
                          Sleep (of_int (2 ^ nat a))]) attempts)"

text \<open>
  The outcome of an attempt loop that ends with the service error on page index
  \<open>page_num\<close> after \<open>n\<close> requests: the error leaves the loop, the progress stored is
  \<open>page_num\<close>, and neither the knowledge base, nor the raw files, nor the list of pages
  started has changed.
\<close>

definition raised_on_page :: "int \<Rightarrow> world \<Rightarrow> nat \<Rightarrow> exn option \<times> world \<Rightarrow> bool" where
  "raised_on_page page_num w n res =
     (fst res = Some APIError \<and> state_file (snd res) = Some page_num
      \<and> calls (snd res) = calls w + n
      \<and> knowledge (snd res) = knowledge w \<and> raw_files (snd res) = raw_files w
      \<and> pages_started (trace (snd res)) = pages_started (trace w))"

section \<open>Scenarios\<close>

text \<open>A page text long enough to be sent, a fresh world, and some services.\<close>

definition page_text :: string where
  "page_text = replicate 60 CHR ''x''"

definition fresh_world :: world where
  "fresh_world =
     \<lparr>state_file = None, knowledge = None, raw_files = Map.empty, calls = 0, trace = []\<rparr>"

definition no_concepts :: service where
  "no_concepts n t page_num = Response ''% No concepts on this page''"

definition not_a_fact :: service where
  "not_a_fact n t page_num = Response ''not a fact''"

definition junk_for_page :: service where
  "junk_for_page n t page_num = Response (''junk '' @ str_int page_num)"

definition always_rate_limited :: service where
  "always_rate_limited n t page_num = Raises RateLimitError"

definition rate_limited_times :: "nat \<Rightarrow> service" where
  "rate_limited_times k n t page_num =
     (if n < k then Raises RateLimitError else Response ''% No concepts on this page'')"

definition always_api_error :: service where
  "always_api_error n t page_num = Raises APIError"

text \<open>
  A document of three pages, the world left by a run over its first two pages, and the
  text that a page without concepts adds to the knowledge base.
\<close>

definition three_pages :: "string list" where
  "three_pages = [page_text, page_text, page_text]"

definition after_two_pages :: world where
  "after_two_pages = snd (process_pdf no_concepts three_pages None (Some 2) fresh_world)"

definition page_entry :: "int \<Rightarrow> string" where
  "page_entry n =
     [NL] @ ''% === Page '' @ str_int n @ '' ==='' @ [NL] @ ''% No concepts on this page''
     @ [NL]"

section \<open>Evaluation and text lemmas\<close>

lemmas text_defs = strip_def lstrip_def rstrip_def startswith_def endswith_def isspace_def

lemmas validate_defs =
  validate_prolog_syntax_def validate_fact_def check_balanced_parens_def scan_char_def
  scan_init_def FACT_PATTERN_match_def is_ident_char_def is_ident_start_def
  VALID_PREDICATES_def


section \<open>Stripping and splitting\<close>

lemma dropWhile_snoc_keep: "\<not> P y \<Longrightarrow> dropWhile P (xs @ [y]) = dropWhile P xs @ [y]"
  by (induction xs) auto

lemma lstrip_Nil: "lstrip [] = []"
  by (simp add: lstrip_def)

lemma rstrip_Nil: "rstrip [] = []"
  by (simp add: rstrip_def)

lemma strip_Nil: "strip [] = []"
  by (simp add: strip_def lstrip_Nil rstrip_Nil)

lemma lstrip_Cons: "lstrip (c # s) = (if isspace c then lstrip s else c # s)"
  by (simp add: lstrip_def)

lemma rstrip_snoc: "rstrip (s @ [c]) = (if isspace c then rstrip s else s @ [c])"
  by (simp add: rstrip_def)

lemma rstrip_Cons_keep: "\<not> isspace c \<Longrightarrow> rstrip (c # s) = c # rstrip s"
  by (simp add: rstrip_def dropWhile_snoc_keep)

lemma rstrip_all_space: "\<forall>c \<in> set s. isspace c \<Longrightarrow> rstrip s = []"
  by (simp add: rstrip_def)

lemma lstrip_all_space: "\<forall>c \<in> set s. isspace c \<Longrightarrow> lstrip s = []"
  by (simp add: lstrip_def)

lemma strip_Cons_space: "isspace c \<Longrightarrow> strip (c # s) = strip s"
  by (simp add: strip_def lstrip_Cons)

lemma strip_Cons_keep: "\<not> isspace c \<Longrightarrow> strip (c # s) = c # rstrip s"
  by (simp add: strip_def lstrip_Cons rstrip_Cons_keep)

lemma strip_snoc_space:
  assumes "isspace c"
  shows "strip (s @ [c]) = strip s"
proof (cases "\<forall>x \<in> set s. isspace x")
  case True
  with assms have "lstrip (s @ [c]) = []" "lstrip s = []"
    by (simp_all add: lstrip_def)
  then show ?thesis by (simp add: strip_def)
next
  case False
  then obtain x where "x \<in> set s" "\<not> isspace x" by blast
  then have "lstrip (s @ [c]) = lstrip s @ [c]"
    by (simp add: lstrip_def dropWhile_append1)
  with assms show ?thesis by (simp add: strip_def rstrip_snoc)
qed

lemma lstrip_no_leading_space: "lstrip s = [] \<or> \<not> isspace (hd (lstrip s))"
  using hd_dropWhile[of isspace s] by (auto simp: lstrip_def)

lemma rstrip_idem: "rstrip (rstrip s) = rstrip s"
  by (simp add: rstrip_def)

lemma rstrip_single: "rstrip [c] = (if isspace c then [] else [c])"
  by (simp add: rstrip_def)

lemma rstrip_hd: "rstrip s \<noteq> [] \<Longrightarrow> hd (rstrip s) = hd s"
proof (induction s rule: rev_induct)
  case Nil
  then show ?case by (simp add: rstrip_Nil)
next
  case (snoc c s)
  then show ?case
    by (cases "s = []") (auto simp: rstrip_snoc rstrip_Nil rstrip_single split: if_splits)
qed

lemma strip_idem: "strip (strip s) = strip s"
proof (cases "strip s = []")
  case True
  then show ?thesis by (simp add: strip_Nil)
next
  case False
  then have ne: "rstrip (lstrip s) \<noteq> []" by (simp add: strip_def)
  then have "lstrip s \<noteq> []" by (auto simp: rstrip_Nil)
  with lstrip_no_leading_space[of s] have "\<not> isspace (hd (lstrip s))" by simp
  with rstrip_hd[OF ne] have "\<not> isspace (hd (rstrip (lstrip s)))" by simp
  with ne have "lstrip (rstrip (lstrip s)) = rstrip (lstrip s)"
    by (cases "rstrip (lstrip s)") (simp_all add: lstrip_Cons)
  then show ?thesis by (simp add: strip_def rstrip_idem)
qed

lemma strip_id:
  "s \<noteq> [] \<Longrightarrow> \<not> isspace (hd s) \<Longrightarrow> \<not> isspace (last s) \<Longrightarrow> strip s = s"
proof -
  assume a: "s \<noteq> []" "\<not> isspace (hd s)" "\<not> isspace (last s)"
  then have l: "lstrip s = s" by (cases s) (simp_all add: lstrip_Cons)
  from a have "rstrip s = s" by (cases s rule: rev_cases) (simp_all add: rstrip_snoc)
  with l show ?thesis by (simp add: strip_def)
qed

lemma split_nl_not_Nil: "split_nl s \<noteq> []"
  by (induction s) (auto split: list.splits)

lemma split_nl_no_newline: "NL \<notin> set s \<Longrightarrow> split_nl s = [s]"
  by (induction s) auto

lemma split_nl_snoc:
  "split_nl (s @ [c]) =
     (if c = NL then split_nl s @ [[]]
      else butlast (split_nl s) @ [last (split_nl s) @ [c]])"
proof (induction s)
  case Nil
  then show ?case by simp
next
  case (Cons a s)
  obtain l ls where sp: "split_nl s = l # ls"
    using split_nl_not_Nil[of s] by (cases "split_nl s") auto
  obtain l' ls' where sp': "split_nl (s @ [c]) = l' # ls'"
    using split_nl_not_Nil[of "s @ [c]"] by (cases "split_nl (s @ [c])") auto
  from Cons sp sp' show ?case
    by (cases "ls = []") (auto split: if_splits)
qed


section \<open>The validator never raises\<close>

lemma validate_fact_returns: "\<exists>ok msg. validate_fact line = Inr (ok, msg)"
  by (cases "FACT_PATTERN_match (strip line)") (auto simp: validate_fact_def Let_def)

lemma validate_lines_returns: "\<exists>ok. validate_lines ls = Inr ok"
proof (induction ls)
  case Nil
  show ?case by auto
next
  case (Cons l ls)
  obtain ok msg where "validate_fact (strip l) = Inr (ok, msg)"
    using validate_fact_returns by blast
  with Cons show ?case by (cases ok) (auto simp: Let_def)
qed

text \<open>
  The shape \<open>FACT_PATTERN\<close> asks for a final period, so a line that has the shape
  passes the terminator check.
\<close>

lemma period_not_space: "\<not> isspace CHR ''.''"
  by (simp add: isspace_def)

lemma dropWhile_prefix:
  "\<forall>x \<in> set w. P x \<Longrightarrow> \<not> P y \<Longrightarrow> dropWhile P (w @ y # ys) = y # ys"
  by (induction w) auto

lemma rstrip_keeps_period:
  assumes "dropWhile isspace (rev r) = CHR ''.'' # r1"
  shows "rstrip (a @ r) = a @ rev r1 @ ''.''"
proof -
  have "rev r = takeWhile isspace (rev r) @ CHR ''.'' # r1"
    using assms takeWhile_dropWhile_id[of isspace "rev r"] by simp
  then have "rev (a @ r) = takeWhile isspace (rev r) @ CHR ''.'' # (r1 @ rev a)"
    by simp
  moreover have "dropWhile isspace (takeWhile isspace (rev r) @ CHR ''.'' # (r1 @ rev a))
                   = CHR ''.'' # (r1 @ rev a)"
    by (rule dropWhile_prefix) (auto simp: period_not_space dest: set_takeWhileD)
  ultimately have "dropWhile isspace (rev (a @ r)) = CHR ''.'' # (r1 @ rev a)"
    by (simp only:)
  then show ?thesis by (simp add: rstrip_def)
qed

lemma match_ends_with_period:
  assumes "FACT_PATTERN_match s = Some g"
  shows "endswith (rstrip s) ''.''"
proof -
  from assms obtain p r d r1 where
    1: "dropWhile isspace (dropWhile is_ident_char s) = p # r"
    and 2: "dropWhile isspace (rev r) = d # r1" and 3: "d = CHR ''.''"
    by (auto simp: FACT_PATTERN_match_def split: list.splits if_splits)
  let ?a = "takeWhile is_ident_char s @ takeWhile isspace (dropWhile is_ident_char s) @ [p]"
  have "s = takeWhile is_ident_char s @ dropWhile is_ident_char s" by simp
  also have "dropWhile is_ident_char s =
      takeWhile isspace (dropWhile is_ident_char s) @ p # r"
    using 1 takeWhile_dropWhile_id[of isspace "dropWhile is_ident_char s"] by simp
  finally have s: "s = ?a @ r" by simp
  from 2 3 have "rstrip (?a @ r) = ?a @ rev r1 @ ''.''"
    by (intro rstrip_keeps_period) simp
  with s have "rstrip s = (?a @ rev r1) @ ''.''" by simp
  then show ?thesis by (simp add: endswith_def)
qed

lemma rstrip_strip: "rstrip (strip s) = strip s"
  by (simp add: strip_def rstrip_idem)

text \<open>
  What \<open>validate_fact\<close> returns: false exactly on a malformed line, with one of three
  diagnostics. A line of the shape \<open>FACT_PATTERN\<close> ends with a period, so the last check
  of \<open>validate_fact\<close> never fails.
\<close>

lemma validate_fact_malformed:
  "\<exists>msg. validate_fact line = Inr (\<not> malformed_line line, msg)
         \<and> (msg = [] \<longleftrightarrow> \<not> malformed_line line)
         \<and> msg \<in> {[], ''Unbalanced parentheses'',
                   ''Invalid fact syntax: '' @ take 50 (strip line) @ ''...'',
                   ''Unknown predicate: '' @ takeWhile is_ident_char (strip line)}"
proof (cases "FACT_PATTERN_match (strip line)")
  case None
  then show ?thesis
    by (auto simp: validate_fact_def malformed_line_def Let_def)
next
  case (Some g)
  obtain g1 g2 where g: "g = (g1, g2)" by (cases g)
  from Some have e: "endswith (strip line) ''.''"
    using match_ends_with_period[of "strip line" g] by (simp add: rstrip_strip)
  from Some g have g1: "g1 = takeWhile is_ident_char (strip line)"
    by (auto simp: FACT_PATTERN_match_def split: list.splits if_splits)
  from Some g e g1 show ?thesis
    by (auto simp: validate_fact_def malformed_line_def Let_def rstrip_strip)
qed


lemma malformed_line_strip: "malformed_line (strip l) = malformed_line l"
  by (simp add: malformed_line_def strip_idem)

lemma malformed_line_skipped: "skipped_line l \<Longrightarrow> \<not> malformed_line l"
  by (auto simp: malformed_line_def skipped_line_def)

lemma validate_lines_malformed:
  "validate_lines ls = Inr (\<not> (\<exists>l \<in> set ls. malformed_line l))"
proof (induction ls)
  case Nil
  show ?case by simp
next
  case (Cons l ls)
  obtain msg where "validate_fact (strip l) = Inr (\<not> malformed_line (strip l), msg)"
    using validate_fact_malformed[of "strip l"] by blast
  then have f: "validate_fact (strip l) = Inr (\<not> malformed_line l, msg)"
    by (simp add: malformed_line_strip)
  show ?case
  proof (cases "strip l = [] \<or> startswith (strip l) ''%''")
    case True
    then have "\<not> malformed_line l"
      by (intro malformed_line_skipped) (simp add: skipped_line_def)
    with True Cons show ?thesis by (simp add: Let_def)
  next
    case False
    with f Cons show ?thesis by (simp add: Let_def)
  qed
qed

text \<open>The lines of a stripped text, stripped, are those of the text, but for empty ones.\<close>

lemma stripped_lines_Cons_space:
  assumes "isspace c"
  shows "insert [] (strip ` set (split_nl (c # s))) = insert [] (strip ` set (split_nl s))"
proof (cases "c = NL")
  case True
  then show ?thesis by (simp add: strip_Nil)
next
  case False
  obtain l ls where sp: "split_nl s = l # ls"
    using split_nl_not_Nil[of s] by (cases "split_nl s") auto
  with False assms show ?thesis by (simp add: strip_Cons_space)
qed

lemma stripped_lines_lstrip:
  "insert [] (strip ` set (split_nl (lstrip s))) = insert [] (strip ` set (split_nl s))"
proof (induction s)
  case Nil
  show ?case by (simp add: lstrip_Nil)
next
  case (Cons c s)
  show ?case
  proof (cases "isspace c")
    case True
    with Cons stripped_lines_Cons_space[OF True, of s] show ?thesis
      by (simp add: lstrip_Cons)
  next
    case False
    then show ?thesis by (simp add: lstrip_Cons)
  qed
qed

lemma stripped_lines_snoc_space:
  assumes "isspace c"
  shows "insert [] (strip ` set (split_nl (s @ [c]))) = insert [] (strip ` set (split_nl s))"
proof (cases "c = NL")
  case True
  then show ?thesis by (simp add: split_nl_snoc strip_Nil)
next
  case False
  have ne: "split_nl s \<noteq> []" by (rule split_nl_not_Nil)
  then have sp: "split_nl s = butlast (split_nl s) @ [last (split_nl s)]" by simp
  have "strip ` set (split_nl (s @ [c]))
          = strip ` set (butlast (split_nl s) @ [last (split_nl s) @ [c]])"
    using False by (simp add: split_nl_snoc)
  also have "\<dots> = strip ` set (butlast (split_nl s) @ [last (split_nl s)])"
    using assms by (simp add: strip_snoc_space)
  also have "\<dots> = strip ` set (split_nl s)"
    using sp by simp
  finally show ?thesis by simp
qed

lemma stripped_lines_rstrip:
  "insert [] (strip ` set (split_nl (rstrip s))) = insert [] (strip ` set (split_nl s))"
proof (induction s rule: rev_induct)
  case Nil
  show ?case by (simp add: rstrip_Nil)
next
  case (snoc c s)
  show ?case
  proof (cases "isspace c")
    case True
    with snoc stripped_lines_snoc_space[OF True, of s] show ?thesis
      by (simp add: rstrip_snoc)
  next
    case False
    then show ?thesis by (simp add: rstrip_snoc)
  qed
qed

lemma stripped_lines_strip:
  "insert [] (strip ` set (split_nl (strip s))) = insert [] (strip ` set (split_nl s))"
proof -
  have "strip s = rstrip (lstrip s)" by (simp add: strip_def)
  then show ?thesis by (simp only: stripped_lines_rstrip stripped_lines_lstrip)
qed

lemma malformed_in_stripped_text:
  "(\<exists>l \<in> set (split_nl (strip s)). malformed_line l)
     \<longleftrightarrow> (\<exists>l \<in> set (split_nl s). malformed_line l)"
proof -
  have m: "(\<exists>l \<in> A. malformed_line l) \<longleftrightarrow> (\<exists>x \<in> insert [] (strip ` A). malformed_line x)"
    for A
  proof -
    have "\<not> malformed_line []" by (simp add: malformed_line_def strip_Nil)
    then show ?thesis using malformed_line_strip by auto
  qed
  show ?thesis
    by (simp only: m[of "set (split_nl (strip s))"] m[of "set (split_nl s)"]
          stripped_lines_strip)
qed

text \<open>
  Claim C7. For every text \<open>validate_prolog_syntax\<close> returns a boolean and raises
  nothing: the value is false exactly when some line of the text is malformed, that is
  when a line that is neither blank nor a comment fails the balance, shape, predicate or
  terminator check. \<open>validate_fact\<close> too returns on every line, false exactly on a
  malformed one, with a diagnostic that is empty for a line it accepts and otherwise
  one of its messages: an unterminated string or an invalid syntax shows as a value,
  never as an exception.
\<close>

theorem validate_prolog_syntax_never_raises:
  "validate_prolog_syntax payload
     = Inr (\<not> (\<exists>l \<in> set (split_nl payload). malformed_line l))
   \<and> (\<exists>msg. validate_fact line = Inr (\<not> malformed_line line, msg)
         \<and> (msg = [] \<longleftrightarrow> \<not> malformed_line line)
         \<and> msg \<in> {[], ''Unbalanced parentheses'',
                   ''Invalid fact syntax: '' @ take 50 (strip line) @ ''...'',
                   ''Unknown predicate: '' @ takeWhile is_ident_char (strip line)})"
  using validate_fact_malformed[of line]
  by (simp only: validate_prolog_syntax_def validate_lines_malformed
        malformed_in_stripped_text)

theorem validate_prolog_syntax_never_raises_witness:
  \<open>malformed_line ''concept(test, 1, "unclosed string''
   \<and> ''concept(test, 1, "unclosed string''
        \<in> set (split_nl (''concept(a, 1).'' @ [NL] @ ''concept(test, 1, "unclosed string''))
   \<and> validate_prolog_syntax (''concept(a, 1).'' @ [NL] @ ''concept(test, 1, "unclosed string'')
       = Inr False
   \<and> validate_fact ''concept(test, 1, "unclosed string''
       = Inr (False, ''Unbalanced parentheses'')
   \<and> validate_fact ''concept x'' = Inr (False, ''Invalid fact syntax: concept x...'')
   \<and> validate_fact ''invalid_predicate(foo, bar).''
       = Inr (False, ''Unknown predicate: invalid_predicate'')
   \<and> validate_fact ''concept(a, 1)'' = Inr (False, ''Invalid fact syntax: concept(a, 1)...'')
   \<and> validate_prolog_syntax ''concept(a, 1).'' = Inr True\<close>
proof -
  let ?line = \<open>''concept(test, 1, "unclosed string''\<close>
  let ?payload = "''concept(a, 1).'' @ [NL] @ ?line"
  have a: "malformed_line ?line"
    by (simp add: malformed_line_def validate_defs text_defs)
  have b: "?line \<in> set (split_nl ?payload)" by simp
  note th = validate_prolog_syntax_never_raises[of ?payload ?line]
  from th a b have c: "validate_prolog_syntax ?payload = Inr False" by auto
  have d: "validate_fact ?line = Inr (False, ''Unbalanced parentheses'')"
    by (simp add: validate_defs text_defs)
  have e: "validate_fact ''concept x'' = Inr (False, ''Invalid fact syntax: concept x...'')"
    by (simp add: validate_defs text_defs)
  have f: "validate_fact ''invalid_predicate(foo, bar).''
             = Inr (False, ''Unknown predicate: invalid_predicate'')"
    by (simp add: validate_defs text_defs)
  have g: "validate_fact ''concept(a, 1)''
             = Inr (False, ''Invalid fact syntax: concept(a, 1)...'')"
    by (simp add: validate_defs text_defs)
  have "\<not> (\<exists>l \<in> set (split_nl ''concept(a, 1).''). malformed_line l)"
    by (simp add: malformed_line_def validate_defs text_defs endswith_def)
  with validate_prolog_syntax_never_raises[of "''concept(a, 1).''" "[]"]
  have h: "validate_prolog_syntax ''concept(a, 1).'' = Inr True" by simp
  from a b c d e f g h show ?thesis by blast
qed

section \<open>Payloads of blank lines and comments\<close>

lemma validate_lines_skipped:
  "\<forall>l \<in> set ls. skipped_line l \<Longrightarrow> validate_lines ls = Inr True"
  by (induction ls) (auto simp: skipped_line_def Let_def)

lemma skipped_lines_drop_first:
  assumes "isspace c" and "\<forall>l \<in> set (split_nl (c # s)). skipped_line l"
  shows "\<forall>l \<in> set (split_nl s). skipped_line l"
proof (cases "c = NL")
  case True
  with assms(2) show ?thesis by simp
next
  case False
  obtain l ls where sp: "split_nl s = l # ls"
    using split_nl_not_Nil[of s] by (cases "split_nl s") auto
  with False assms(2) have "skipped_line (c # l)" "\<forall>x \<in> set ls. skipped_line x"
    by simp_all
  with assms(1) sp show ?thesis
    by (simp add: skipped_line_def strip_Cons_space)
qed

lemma skipped_lines_lstrip:
  "\<forall>l \<in> set (split_nl s). skipped_line l \<Longrightarrow> \<forall>l \<in> set (split_nl (lstrip s)). skipped_line l"
proof (induction s)
  case Nil
  then show ?case by (simp add: lstrip_Nil)
next
  case (Cons c s)
  show ?case
  proof (cases "isspace c")
    case True
    with Cons.prems have "\<forall>l \<in> set (split_nl s). skipped_line l"
      using skipped_lines_drop_first by blast
    with Cons.IH True show ?thesis by (simp add: lstrip_Cons)
  next
    case False
    with Cons.prems show ?thesis by (simp add: lstrip_Cons)
  qed
qed

lemma skipped_lines_drop_last:
  assumes "isspace c" and "\<forall>l \<in> set (split_nl (s @ [c])). skipped_line l"
  shows "\<forall>l \<in> set (split_nl s). skipped_line l"
proof (cases "c = NL")
  case True
  with assms(2) show ?thesis by (simp add: split_nl_snoc)
next
  case False
  have ne: "split_nl s \<noteq> []" by (rule split_nl_not_Nil)
  from False assms(2)
  have all: "\<forall>l \<in> set (butlast (split_nl s) @ [last (split_nl s) @ [c]]). skipped_line l"
    by (simp add: split_nl_snoc)
  then have "skipped_line (last (split_nl s) @ [c])" by simp
  with assms(1) have "skipped_line (last (split_nl s))"
    by (simp add: skipped_line_def strip_snoc_space)
  moreover from all have "\<forall>l \<in> set (butlast (split_nl s)). skipped_line l" by simp
  ultimately have "\<forall>l \<in> set (butlast (split_nl s) @ [last (split_nl s)]). skipped_line l"
    by simp
  with ne show ?thesis by simp
qed

lemma skipped_lines_rstrip:
  "\<forall>l \<in> set (split_nl s). skipped_line l \<Longrightarrow> \<forall>l \<in> set (split_nl (rstrip s)). skipped_line l"
proof (induction s rule: rev_induct)
  case Nil
  then show ?case by (simp add: rstrip_Nil)
next
  case (snoc c s)
  show ?case
  proof (cases "isspace c")
    case True
    with snoc.prems have "\<forall>l \<in> set (split_nl s). skipped_line l"
      using skipped_lines_drop_last by blast
    with snoc.IH True show ?thesis by (simp add: rstrip_snoc)
  next
    case False
    with snoc.prems show ?thesis by (simp add: rstrip_snoc)
  qed
qed

lemma only_skipped_lines_valid:
  assumes "\<forall>l \<in> set (split_nl s). skipped_line l"
  shows "validate_prolog_syntax s = Inr True"
proof -
  from assms have "\<forall>l \<in> set (split_nl (strip s)). skipped_line l"
    unfolding strip_def by (intro skipped_lines_rstrip skipped_lines_lstrip)
  then show ?thesis
    by (simp add: validate_prolog_syntax_def validate_lines_skipped)
qed

lemma blank_line_skipped: "\<forall>c \<in> set l. isspace c \<Longrightarrow> skipped_line l"
  by (simp add: skipped_line_def strip_def lstrip_all_space rstrip_Nil)

lemma percent_not_space: "\<not> isspace CHR ''%''"
  by (simp add: isspace_def)

lemma comment_line_skipped: "startswith l ''%'' \<Longrightarrow> skipped_line l"
  by (cases l) (simp_all add: skipped_line_def startswith_def strip_Cons_keep percent_not_space)

text \<open>
  Claim C9. A payload in which every line is blank (white space only) or starts with the
  comment marker \<open>%\<close> validates as true.
\<close>

theorem blank_and_comment_payload_valid:
  "\<forall>l \<in> set (split_nl payload). (\<forall>c \<in> set l. isspace c) \<or> startswith l ''%'' \<Longrightarrow>
   validate_prolog_syntax payload = Inr True"
  using blank_line_skipped comment_line_skipped
  by (intro only_skipped_lines_valid) blast

theorem blank_and_comment_payload_valid_witness:
  "split_nl [CHR '' '', NL, CHR ''%'', CHR ''x'', NL] = [[CHR '' ''], [CHR ''%'', CHR ''x''], []]
   \<and> isspace CHR '' ''
   \<and> startswith [CHR ''%'', CHR ''x''] ''%''
   \<and> validate_prolog_syntax [CHR '' '', NL, CHR ''%'', CHR ''x'', NL] = Inr True"
proof -
  have s: "split_nl [CHR '' '', NL, CHR ''%'', CHR ''x'', NL]
             = [[CHR '' ''], [CHR ''%'', CHR ''x''], []]"
    by simp
  have b: "isspace CHR '' ''" by (simp add: isspace_def)
  have c: "startswith [CHR ''%'', CHR ''x''] ''%''" by (simp add: startswith_def)
  have h: "\<forall>l \<in> set (split_nl [CHR '' '', NL, CHR ''%'', CHR ''x'', NL]).
             (\<forall>c \<in> set l. isspace c) \<or> startswith l ''%''"
    unfolding s using b c by simp
  from blank_and_comment_payload_valid[OF h] s b c show ?thesis by blast
qed


section \<open>Facts of the shape concept(X, N, "S").\<close>

lemma scan_chars_append:
  "scan_chars (a @ b) st =
     (case scan_chars a st of None \<Rightarrow> None | Some st' \<Rightarrow> scan_chars b st')"
  by (induction a arbitrary: st) (auto split: option.splits)

lemma scan_chars_plain:
  "\<forall>c \<in> set s. plain_char c \<Longrightarrow> \<not> escape_next st \<Longrightarrow> scan_chars s st = Some st"
  by (induction s) (auto simp: plain_char_def scan_char_def)

lemma scan_chars_quoted:
  "quotes_doubled s \<Longrightarrow> BACKSLASH \<notin> set s \<Longrightarrow> in_string st \<Longrightarrow> \<not> escape_next st \<Longrightarrow>
   scan_chars s st = Some st"
proof (induction s rule: quotes_doubled.induct)
  case 1
  then show ?case by simp
next
  case (2 c)
  then show ?case by (simp add: scan_char_def)
next
  case (3 c d cs)
  show ?case
  proof (cases "c = DQUOTE")
    case True
    from "3.prems"(3) have eq: "st\<lparr>in_string := True\<rparr> = st" by (cases st) simp
    from True "3.prems" have step:
      "scan_chars (c # d # cs) st = scan_chars cs (st\<lparr>in_string := True\<rparr>)"
      by (simp add: scan_char_def)
    from True 3 have "scan_chars cs st = Some st" by simp
    with step eq show ?thesis by (simp only:)
  next
    case False
    from False "3.prems" have sc: "scan_char c st = Some st"
      by (auto simp: scan_char_def)
    from False "3.prems" have "quotes_doubled (d # cs)" "BACKSLASH \<notin> set (d # cs)"
      by auto
    with "3.IH"(2)[OF False] "3.prems" have "scan_chars (d # cs) st = Some st"
      by blast
    with sc show ?thesis by (simp only: scan_chars.simps option.case)
  qed
qed

lemma scan_chars_inside_string:
  "DQUOTE \<notin> set s \<Longrightarrow> in_string st \<Longrightarrow>
   \<exists>st'. scan_chars s st = Some st' \<and> count st' = count st \<and> in_string st'"
proof (induction s arbitrary: st)
  case Nil
  then show ?case by simp
next
  case (Cons c s)
  from Cons.prems
  have "scan_char c st = Some (st\<lparr>escape_next := False\<rparr>)
        \<or> scan_char c st = Some (st\<lparr>escape_next := True\<rparr>) \<or> scan_char c st = Some st"
    by (auto simp: scan_char_def)
  then show ?case
    using Cons.IH[of "st\<lparr>escape_next := False\<rparr>"] Cons.IH[of "st\<lparr>escape_next := True\<rparr>"]
      Cons.IH[of st] Cons.prems
    by auto
qed

lemma concept_line_valid:
  assumes "NL \<notin> set args"
    and "scan_chars args \<lparr>count = 1, in_string = False, escape_next = False\<rparr>
           = Some \<lparr>count = 1, in_string = False, escape_next = False\<rparr>"
  shows "validate_prolog_syntax (''concept('' @ args @ '').'') = Inr True"
proof -
  let ?line = "''concept('' @ args @ '').''"
  have s: "strip ?line = ?line"
    by (rule strip_id) (simp_all add: isspace_def)
  have sp: "split_nl ?line = [?line]"
    using assms(1) by (intro split_nl_no_newline) simp
  have bal: "check_balanced_parens ?line"
    using assms(2)
    by (simp add: check_balanced_parens_def scan_init_def scan_char_def scan_chars_append)
  have m: "FACT_PATTERN_match ?line = Some (''concept'', args)"
    using assms(1)
    by (simp add: FACT_PATTERN_match_def is_ident_start_def is_ident_char_def isspace_def)
  have r: "rstrip ?line = ?line"
    using s by (simp add: strip_def lstrip_Cons isspace_def)
  have e: "endswith ?line ''.''"
    by (simp add: endswith_def)
  have "validate_fact ?line = Inr (True, [])"
    by (simp add: validate_fact_def s bal m r e VALID_PREDICATES_def startswith_def
          del: append.simps)
  then show ?thesis
    by (simp add: validate_prolog_syntax_def s sp startswith_def del: append.simps) 
qed


lemma snake_case_plain: "is_snake_case x \<Longrightarrow> \<forall>c \<in> set x. plain_char c \<and> c \<noteq> NL"
  by (auto simp: is_snake_case_def plain_char_def Let_def)

lemma digits_plain: "is_digits ds \<Longrightarrow> \<forall>c \<in> set ds. plain_char c \<and> c \<noteq> NL"
  by (auto simp: is_digits_def plain_char_def Let_def)

lemma integer_literal_plain:
  "is_integer_literal n \<Longrightarrow> \<forall>c \<in> set n. plain_char c \<and> c \<noteq> NL"
  using digits_plain
  by (cases n) (auto simp: is_integer_literal_def plain_char_def split: if_splits)

lemma concept_args_scan:
  assumes "is_snake_case x" "is_integer_literal n" "quotes_doubled s" "BACKSLASH \<notin> set s"
  shows "scan_chars (x @ '', '' @ n @ '', '' @ [DQUOTE] @ s @ [DQUOTE])
           \<lparr>count = 1, in_string = False, escape_next = False\<rparr>
         = Some \<lparr>count = 1, in_string = False, escape_next = False\<rparr>"
proof -
  have x: "\<And>st. \<not> escape_next st \<Longrightarrow> scan_chars x st = Some st"
    using snake_case_plain[OF assms(1)] by (intro scan_chars_plain) auto
  have n: "\<And>st. \<not> escape_next st \<Longrightarrow> scan_chars n st = Some st"
    using integer_literal_plain[OF assms(2)] by (intro scan_chars_plain) auto
  have s: "\<And>st. in_string st \<Longrightarrow> \<not> escape_next st \<Longrightarrow> scan_chars s st = Some st"
    using assms(3,4) by (rule scan_chars_quoted)
  show ?thesis
    by (simp add: scan_chars_append x n s scan_char_def)
qed

text \<open>
  Claim C4, amended. Every single-line payload \<open>concept(X, N, "S").\<close> with \<open>X\<close> a snake-case
  identifier, \<open>N\<close> an integer and \<open>S\<close> a text without backslash in which every quote
  character is doubled validates as true.
\<close>

theorem concept_fact_valid:
  assumes "is_snake_case x" "is_integer_literal n" "quotes_doubled s"
    and "BACKSLASH \<notin> set s" "NL \<notin> set s"
  shows "validate_prolog_syntax (concept_fact x n s) = Inr True"
proof -
  have "NL \<notin> set (x @ '', '' @ n @ '', '' @ [DQUOTE] @ s @ [DQUOTE])"
    using snake_case_plain[OF assms(1)] integer_literal_plain[OF assms(2)] assms(5) by auto
  from concept_line_valid[OF this concept_args_scan[OF assms(1-4)]]
  show ?thesis by (simp add: concept_fact_def)
qed

text \<open>
  Claim C4 as stated fails: the text \<open>S\<close> made of one backslash contains no quote at all,
  and the payload is rejected, since the scanner takes the backslash to escape the closing
  quote.
\<close>

theorem concept_fact_backslash_counterexample:
  "is_snake_case ''a'' \<and> is_integer_literal ''1'' \<and> quotes_doubled [BACKSLASH]
   \<and> NL \<notin> set [BACKSLASH]
   \<and> validate_prolog_syntax (concept_fact ''a'' ''1'' [BACKSLASH]) = Inr False"
  by (simp add: concept_fact_def is_snake_case_def is_integer_literal_def is_digits_def
        validate_defs text_defs)

theorem concept_fact_valid_witness:
  "is_snake_case ''nash_equilibrium'' \<and> is_integer_literal ''42''
   \<and> quotes_doubled (''He said '' @ [DQUOTE, DQUOTE] @ ''hi'' @ [DQUOTE, DQUOTE] @ '' (twice)'')
   \<and> validate_prolog_syntax
        (concept_fact ''nash_equilibrium'' ''42''
          (''He said '' @ [DQUOTE, DQUOTE] @ ''hi'' @ [DQUOTE, DQUOTE] @ '' (twice)''))
       = Inr True"
proof -
  have a: "is_snake_case ''nash_equilibrium''" by (simp add: is_snake_case_def)
  have b: "is_integer_literal ''42''" by (simp add: is_integer_literal_def is_digits_def)
  have c: "quotes_doubled (''He said '' @ [DQUOTE, DQUOTE] @ ''hi'' @ [DQUOTE, DQUOTE] @ '' (twice)'')"
    by simp
  have d: "BACKSLASH \<notin> set (''He said '' @ [DQUOTE, DQUOTE] @ ''hi'' @ [DQUOTE, DQUOTE] @ '' (twice)'')"
    by simp
  have e: "NL \<notin> set (''He said '' @ [DQUOTE, DQUOTE] @ ''hi'' @ [DQUOTE, DQUOTE] @ '' (twice)'')"
    by simp
  from concept_fact_valid[OF a b c d e] a b c show ?thesis by blast
qed


section \<open>The parenthesis check\<close>

lemma paren_depth_Nil: "paren_depth [] = 0"
  by (simp add: paren_depth_def)

lemma paren_depth_snoc:
  "paren_depth (cs @ [x]) =
     paren_depth cs + (if x = CHR ''('' then 1 else if x = CHR '')'' then - 1 else 0)"
  by (simp add: paren_depth_def)

lemma all_prefixes_snoc:
  "(\<forall>n \<le> length (cs @ [x]). P (take n (cs @ [x]))) \<longleftrightarrow>
     (\<forall>n \<le> length cs. P (take n cs)) \<and> P (cs @ [x])"
proof -
  have "(\<forall>n \<le> Suc (length cs). P (take n (cs @ [x]))) \<longleftrightarrow>
        (\<forall>n \<le> length cs. P (take n (cs @ [x]))) \<and> P (take (Suc (length cs)) (cs @ [x]))"
    using le_Suc_eq by auto
  then show ?thesis by simp
qed

lemma never_negative_Nil: "never_negative []"
  by (simp add: never_negative_def paren_depth_Nil)

lemma never_negative_snoc:
  "never_negative (cs @ [x]) \<longleftrightarrow> never_negative cs \<and> 0 \<le> paren_depth (cs @ [x])"
  unfolding never_negative_def by (rule all_prefixes_snoc)

lemma never_negative_depth: "never_negative cs \<Longrightarrow> 0 \<le> paren_depth cs"
  unfolding never_negative_def by (auto dest: spec[of _ "length cs"])

lemma outside_strings_Nil: "outside_strings [] = []"
  by (simp add: outside_strings_def)

text \<open>The characters outside strings, read from the left.\<close>

lemma outside_strings_snoc:
  "outside_strings (s @ [c]) =
     outside_strings s @ (if c \<noteq> DQUOTE \<and> even (count_list s DQUOTE) then [c] else [])"
proof -
  let ?Q = "\<lambda>t i. t ! i \<noteq> DQUOTE \<and> even (count_list (take i t) DQUOTE)"
  have f: "filter (?Q (s @ [c])) [0..<length s] = filter (?Q s) [0..<length s]"
    by (rule filter_cong) (auto simp: nth_append)
  have m: "map (\<lambda>i. (s @ [c]) ! i) (filter (?Q s) [0..<length s])
           = map (\<lambda>i. s ! i) (filter (?Q s) [0..<length s])"
    by (rule map_cong) (auto simp: nth_append)
  have u: "[0..<length (s @ [c])] = [0..<length s] @ [length s]" by simp
  have l: "filter (?Q (s @ [c])) [length s]
           = (if c \<noteq> DQUOTE \<and> even (count_list s DQUOTE) then [length s] else [])"
    by simp
  have "outside_strings (s @ [c]) =
          map (\<lambda>i. (s @ [c]) ! i) (filter (?Q (s @ [c])) [0..<length s])
          @ map (\<lambda>i. (s @ [c]) ! i) (filter (?Q (s @ [c])) [length s])"
    unfolding outside_strings_def u by (simp only: filter_append map_append)
  also have "\<dots> = outside_strings s
          @ map (\<lambda>i. (s @ [c]) ! i) (filter (?Q (s @ [c])) [length s])"
    unfolding f m outside_strings_def ..
  also have "\<dots> = outside_strings s
          @ (if c \<noteq> DQUOTE \<and> even (count_list s DQUOTE) then [c] else [])"
    unfolding l by simp
  finally show ?thesis .
qed

lemma scan_chars_snoc:
  "scan_chars (s @ [c]) st =
     (case scan_chars s st of None \<Rightarrow> None | Some st' \<Rightarrow> scan_char c st')"
  by (simp add: scan_chars_append split: option.splits)

text \<open>
  On a text without backslash the scanner stops early exactly when the counter of the
  specification goes negative, and otherwise ends with that counter, inside a string
  exactly after an odd number of quotes.
\<close>

lemma scan_chars_no_backslash:
  "BACKSLASH \<notin> set s \<Longrightarrow>
   scan_chars s scan_init =
     (if never_negative (outside_strings s)
      then Some \<lparr>count = paren_depth (outside_strings s),
                 in_string = odd (count_list s DQUOTE), escape_next = False\<rparr>
      else None)"
proof (induction s rule: rev_induct)
  case Nil
  then show ?case
    by (simp add: outside_strings_Nil scan_init_def paren_depth_Nil never_negative_Nil)
next
  case (snoc c s)
  then have IH: "scan_chars s scan_init =
     (if never_negative (outside_strings s)
      then Some \<lparr>count = paren_depth (outside_strings s),
                 in_string = odd (count_list s DQUOTE), escape_next = False\<rparr>
      else None)" and c: "c \<noteq> BACKSLASH" by auto
  show ?case
    unfolding scan_chars_snoc IH outside_strings_snoc
    using c
    by (auto simp: never_negative_snoc scan_char_def paren_depth_snoc
          dest: never_negative_depth)
qed

lemma check_balanced_parens_no_backslash:
  "BACKSLASH \<notin> set s \<Longrightarrow>
   check_balanced_parens s \<longleftrightarrow> spec_counter_ok (outside_strings s)"
  by (auto simp: check_balanced_parens_def scan_chars_no_backslash spec_counter_ok_def)

text \<open>
  With backslashes: the scanner passes over a backslash and over the character after
  it, whatever it is and wherever it stands, so the check of a text is the check of the
  text without them.
\<close>

lemma unescaped_no_backslash: "BACKSLASH \<notin> set (unescaped s)"
  by (induction s rule: unescaped.induct) auto

lemma scan_chars_unescaped:
  "\<not> escape_next st \<Longrightarrow>
   map_option count (scan_chars s st) = map_option count (scan_chars (unescaped s) st)"
proof (induction s arbitrary: st rule: unescaped.induct)
  case 1
  then show ?case by simp
next
  case (2 c)
  then show ?case by (auto simp: scan_char_def)
next
  case (3 c d cs)
  show ?case
  proof (cases "c = BACKSLASH")
    case True
    from "3.prems" have eq: "st\<lparr>escape_next := True, escape_next := False\<rparr> = st"
      by (cases st) simp
    from True "3.prems" have "scan_chars (c # d # cs) st = scan_chars cs st"
      by (simp add: scan_char_def eq)
    with True "3.IH"(1)[OF True "3.prems"] show ?thesis by simp
  next
    case False
    show ?thesis
    proof (cases "scan_char c st")
      case None
      with False show ?thesis by simp
    next
      case (Some st')
      with False "3.prems" have "\<not> escape_next st'"
        by (auto simp: scan_char_def split: if_splits)
      from "3.IH"(2)[OF False this] Some False show ?thesis by simp
    qed
  qed
qed

lemma check_balanced_parens_unescaped:
  "check_balanced_parens s \<longleftrightarrow> spec_counter_ok (outside_strings (unescaped s))"
proof -
  have "map_option count (scan_chars s scan_init)
        = map_option count (scan_chars (unescaped s) scan_init)"
    by (rule scan_chars_unescaped) (simp add: scan_init_def)
  then have "check_balanced_parens s = check_balanced_parens (unescaped s)"
    by (auto simp: check_balanced_parens_def split: option.splits)
  with check_balanced_parens_no_backslash[OF unescaped_no_backslash] show ?thesis by simp
qed

lemma validate_fact_unbalanced:
  "strip line \<noteq> [] \<Longrightarrow> \<not> startswith (strip line) ''%'' \<Longrightarrow>
   \<not> check_balanced_parens (strip line) \<Longrightarrow>
   validate_fact line = Inr (False, ''Unbalanced parentheses'')"
  by (simp add: validate_fact_def)

lemma validate_lines_rejects:
  assumes "l \<in> set ls" "\<not> skipped_line l" "validate_fact (strip l) = Inr (False, msg)"
  shows "validate_lines ls = Inr False"
  using assms
proof (induction ls)
  case Nil
  then show ?case by simp
next
  case (Cons a ls)
  obtain ok m where a: "validate_fact (strip a) = Inr (ok, m)"
    using validate_fact_returns by blast
  show ?case
  proof (cases "l = a")
    case True
    with Cons.prems show ?thesis by (simp add: skipped_line_def Let_def)
  next
    case False
    with Cons have "validate_lines ls = Inr False" by simp
    with a show ?thesis by (cases ok) (simp_all add: Let_def)
  qed
qed

lemma unbalanced_line_rejected:
  assumes "l \<in> set (split_nl (strip payload))" "\<not> skipped_line l"
    and "\<not> check_balanced_parens (strip l)"
  shows "validate_prolog_syntax payload = Inr False"
proof -
  from assms(2) have "strip (strip l) \<noteq> []" "\<not> startswith (strip (strip l)) ''%''"
    by (simp_all add: skipped_line_def strip_idem)
  with assms(3) have "validate_fact (strip l) = Inr (False, ''Unbalanced parentheses'')"
    by (intro validate_fact_unbalanced) (simp_all add: strip_idem)
  with assms(1,2) show ?thesis
    unfolding validate_prolog_syntax_def by (rule validate_lines_rejects)
qed

lemma unbalanced_line_of_payload_rejected:
  assumes "l \<in> set (split_nl payload)" "\<not> skipped_line l"
    and "\<not> check_balanced_parens (strip l)"
  shows "validate_prolog_syntax payload = Inr False"
proof -
  from assms(2,3) have "malformed_line l"
    by (simp add: malformed_line_def skipped_line_def)
  with assms(1) have "\<exists>l \<in> set (split_nl payload). malformed_line l" by blast
  then have "\<exists>l \<in> set (split_nl (strip payload)). malformed_line l"
    by (simp only: malformed_in_stripped_text)
  then show ?thesis
    by (simp add: validate_prolog_syntax_def validate_lines_malformed)
qed

lemma set_strip: "set (strip s) \<subseteq> set s"
proof -
  have "set (rstrip t) \<subseteq> set t" for t
    using set_dropWhileD[of _ isspace "rev t"] by (auto simp: rstrip_def)
  moreover have "set (lstrip s) \<subseteq> set s"
    using set_dropWhileD[of _ isspace s] by (auto simp: lstrip_def)
  ultimately show ?thesis unfolding strip_def by blast
qed

lemma parens_inside_string_valid:
  \<open>validate_prolog_syntax ''concept(a, 1, "b(c)").'' = Inr True\<close>
  by (simp add: validate_defs text_defs)

lemma extra_close_paren_invalid:
  \<open>validate_prolog_syntax ''concept(a, 1)).'' = Inr False\<close>
  by (simp add: validate_defs text_defs)

text \<open>
  Claim C5 as stated fails: the line \<open>concept(a\().\<close> holds no quote, so all of it lies
  outside quoted strings, and its parentheses leave the counter at one at the end of the
  line; yet the check passes and the line validates as true, since the scanner passes
  over the parenthesis after the backslash.
\<close>

theorem backslash_outside_string_counterexample:
  "DQUOTE \<notin> set (''concept(a'' @ [BACKSLASH] @ ''().'')
   \<and> outside_strings (''concept(a'' @ [BACKSLASH] @ ''().'')
       = ''concept(a'' @ [BACKSLASH] @ ''().''
   \<and> paren_depth (outside_strings (''concept(a'' @ [BACKSLASH] @ ''().'')) = 1
   \<and> \<not> spec_counter_ok (outside_strings (''concept(a'' @ [BACKSLASH] @ ''().''))
   \<and> check_balanced_parens (''concept(a'' @ [BACKSLASH] @ ''().'')
   \<and> validate_fact (''concept(a'' @ [BACKSLASH] @ ''().'') = Inr (True, [])
   \<and> validate_prolog_syntax (''concept(a'' @ [BACKSLASH] @ ''().'') = Inr True"
  by (simp add: outside_strings_def paren_depth_def spec_counter_ok_def validate_defs
        text_defs upt_rec)

text \<open>
  Claim C5, amended. On a line that contains no backslash, the balanced-parenthesis
  check counts parentheses only outside quoted-string spans and passes exactly when the
  counter never goes negative and is zero at the end of the line; such a line, when it is
  neither blank nor a comment and its counter goes negative or ends nonzero, is rejected
  by \<open>validate_fact\<close> as unbalanced and makes every payload it is a line of validate
  as false; the line \<open>concept(a, 1, "b(c)").\<close> validates as true and the line
  \<open>concept(a, 1)).\<close> as false.
\<close>

theorem paren_check_counts_outside_strings:
  assumes "BACKSLASH \<notin> set line"
  shows \<open>(check_balanced_parens line \<longleftrightarrow> spec_counter_ok (outside_strings line))
   \<and> (\<not> skipped_line line \<and> \<not> spec_counter_ok (outside_strings (strip line)) \<longrightarrow>
        validate_fact line = Inr (False, ''Unbalanced parentheses'')
        \<and> (line \<in> set (split_nl payload) \<longrightarrow> validate_prolog_syntax payload = Inr False))
   \<and> validate_prolog_syntax ''concept(a, 1, "b(c)").'' = Inr True
   \<and> validate_prolog_syntax ''concept(a, 1)).'' = Inr False\<close>
proof -
  from assms set_strip[of line] have nb: "BACKSLASH \<notin> set (strip line)" by blast
  have 1: "check_balanced_parens line \<longleftrightarrow> spec_counter_ok (outside_strings line)"
    using assms by (rule check_balanced_parens_no_backslash)
  have 2: "validate_fact line = Inr (False, ''Unbalanced parentheses'')
           \<and> (line \<in> set (split_nl payload) \<longrightarrow> validate_prolog_syntax payload = Inr False)"
    if a: "\<not> skipped_line line" and b: "\<not> spec_counter_ok (outside_strings (strip line))"
  proof -
    from b have u: "\<not> check_balanced_parens (strip line)"
      by (simp add: check_balanced_parens_no_backslash[OF nb])
    from a have "strip line \<noteq> []" "\<not> startswith (strip line) ''%''"
      by (simp_all add: skipped_line_def)
    with u have "validate_fact line = Inr (False, ''Unbalanced parentheses'')"
      by (intro validate_fact_unbalanced)
    moreover have "validate_prolog_syntax payload = Inr False"
      if "line \<in> set (split_nl payload)"
      using that a u by (rule unbalanced_line_of_payload_rejected)
    ultimately show ?thesis by blast
  qed
  from 1 2 parens_inside_string_valid extra_close_paren_invalid show ?thesis by blast
qed

theorem paren_check_counts_outside_strings_witness:
  \<open>BACKSLASH \<notin> set ''f(")")''
   \<and> outside_strings ''f(")")'' = ''f()''
   \<and> spec_counter_ok (outside_strings ''f(")")'')
   \<and> check_balanced_parens ''f(")")''
   \<and> BACKSLASH \<notin> set '' a)( ''
   \<and> \<not> skipped_line '' a)( ''
   \<and> outside_strings (strip '' a)( '') = ''a)(''
   \<and> \<not> spec_counter_ok (outside_strings (strip '' a)( ''))
   \<and> '' a)( '' \<in> set (split_nl (''concept(a, 1).'' @ [NL] @ '' a)( ''))
   \<and> validate_fact '' a)( '' = Inr (False, ''Unbalanced parentheses'')
   \<and> validate_prolog_syntax (''concept(a, 1).'' @ [NL] @ '' a)( '') = Inr False\<close>
proof -
  have a: \<open>BACKSLASH \<notin> set ''f(")")''\<close> by simp
  have b: \<open>outside_strings ''f(")")'' = ''f()''\<close>
    by (simp add: outside_strings_def upt_rec)
  have k: \<open>check_balanced_parens ''f(")")''\<close>
    by (simp add: check_balanced_parens_def scan_char_def scan_init_def)
  have d: "BACKSLASH \<notin> set '' a)( ''" by simp
  have s: "strip '' a)( '' = ''a)(''" by (simp add: text_defs)
  have e: "\<not> skipped_line '' a)( ''" by (simp add: skipped_line_def s startswith_def)
  have f: "outside_strings (strip '' a)( '') = ''a)(''"
    by (simp add: s outside_strings_def upt_rec)
  have "paren_depth (take 2 ''a)('') = - 1" by (simp add: paren_depth_def)
  then have "\<not> never_negative ''a)(''"
    unfolding never_negative_def by (intro notI) (auto dest: spec[of _ 2])
  then have g: "\<not> spec_counter_ok (outside_strings (strip '' a)( ''))"
    by (simp add: f spec_counter_ok_def)
  have h: "'' a)( '' \<in> set (split_nl (''concept(a, 1).'' @ [NL] @ '' a)( ''))" by simp
  note th1 = paren_check_counts_outside_strings[OF a]
  note th2 = paren_check_counts_outside_strings
      [OF d, of "''concept(a, 1).'' @ [NL] @ '' a)( ''"]
  from th1 k have c': \<open>spec_counter_ok (outside_strings ''f(")")'')\<close>
    by blast
  from th2 e g h
  have m: "validate_fact '' a)( '' = Inr (False, ''Unbalanced parentheses'')
           \<and> validate_prolog_syntax (''concept(a, 1).'' @ [NL] @ '' a)( '') = Inr False"
    by blast
  from a b c' k d e f g h m show ?thesis by blast
qed

section \<open>Unterminated strings\<close>

lemma scan_chars_open_string:
  "parse_prolog_string_loop s i result = Inl (ValueError ''Unterminated string'') \<Longrightarrow>
   in_string st \<Longrightarrow> \<not> escape_next st \<Longrightarrow>
   \<exists>st'. scan_chars (drop i s) st = Some st' \<and> count st' = count st"
proof (induction s i result arbitrary: st rule: parse_prolog_string_loop.induct)
  case (1 s i result)
  from "1.prems"(2,3) have eq: "st\<lparr>in_string := True\<rparr> = st" "st\<lparr>escape_next := False\<rparr> = st"
    by (cases st, simp)+
  show ?case
  proof (cases "i < length s")
    case False
    then show ?thesis by simp
  next
    case True
    then have d: "drop i s = s ! i # drop (Suc i) s" by (simp add: Cons_nth_drop_Suc)
    show ?thesis
    proof (cases "s ! i = DQUOTE")
      case q: True
      show ?thesis
      proof (cases "i + 1 < length s \<and> s ! (i + 1) = DQUOTE")
        case False
        with True q "1.prems"(1) show ?thesis
          by (subst (asm) parse_prolog_string_loop.simps) auto
      next
        case dd: True
        then have d2: "drop (Suc i) s = DQUOTE # drop (i + 2) s"
          using Cons_nth_drop_Suc[of "Suc i" s] by simp
        from True q dd "1.prems"(1)
        have "parse_prolog_string_loop s (i + 2) (result @ [DQUOTE])
                = Inl (ValueError ''Unterminated string'')"
          by (subst (asm) parse_prolog_string_loop.simps) simp
        from "1.IH"(1)[OF True q dd this "1.prems"(2,3)]
        obtain st' where "scan_chars (drop (i + 2) s) st = Some st'" "count st' = count st"
          by blast
        moreover from "1.prems"(2,3) q
        have "scan_chars (drop i s) st = scan_chars (drop (i + 2) s) st"
          by (simp add: d d2 q scan_char_def eq)
        ultimately show ?thesis by simp
      qed
    next
      case nq: False
      show ?thesis
      proof (cases "s ! i = BACKSLASH \<and> i + 1 < length s")
        case b: True
        then have d2: "drop (Suc i) s = s ! (i + 1) # drop (i + 2) s"
          using Cons_nth_drop_Suc[of "Suc i" s] by simp
        from True nq b "1.prems"(1)
        have "parse_prolog_string_loop s (i + 2) (result @ [s ! (i + 1)])
                = Inl (ValueError ''Unterminated string'')"
          by (subst (asm) parse_prolog_string_loop.simps) simp
        from "1.IH"(2)[OF True nq b this "1.prems"(2,3)]
        obtain st' where "scan_chars (drop (i + 2) s) st = Some st'" "count st' = count st"
          by blast
        moreover from "1.prems"(2,3) b
        have "scan_chars (drop i s) st = scan_chars (drop (i + 2) s) st"
          by (simp add: d d2 scan_char_def eq)
        ultimately show ?thesis by simp
      next
        case nb: False
        from True nq nb "1.prems"(1)
        have p: "parse_prolog_string_loop s (i + 1) (result @ [s ! i])
                = Inl (ValueError ''Unterminated string'')"
          by (subst (asm) parse_prolog_string_loop.simps) auto
        show ?thesis
        proof (cases "s ! i = BACKSLASH")
          case True
          with nb \<open>i < length s\<close> have "drop (Suc i) s = []" by simp
          with True "1.prems"(2,3) show ?thesis by (simp add: d scan_char_def)
        next
          case False
          from "1.IH"(3)[OF \<open>i < length s\<close> nq nb p "1.prems"(2,3)]
          obtain st' where "scan_chars (drop (i + 1) s) st = Some st'" "count st' = count st"
            by blast
          moreover from False nq "1.prems"(2,3)
          have "scan_chars (drop i s) st = scan_chars (drop (i + 1) s) st"
            by (simp add: d scan_char_def)
          ultimately show ?thesis by simp
        qed
      qed
    qed
  qed
qed

lemma open_string_inside_parens_unbalanced:
  assumes "scan_chars pre scan_init = Some st" "\<not> in_string st" "\<not> escape_next st"
    and "0 < count st"
    and "parse_prolog_string ([DQUOTE] @ rest) = Inl (ValueError ''Unterminated string'')"
  shows "\<not> check_balanced_parens (pre @ [DQUOTE] @ rest)"
proof -
  let ?st = "st\<lparr>in_string := True\<rparr>"
  from assms(2,3) have q: "scan_char DQUOTE st = Some ?st"
    by (simp add: scan_char_def)
  from assms(5) have "parse_prolog_string_loop (DQUOTE # rest) 1 []
                        = Inl (ValueError ''Unterminated string'')"
    by (simp add: parse_prolog_string_def startswith_def)
  from scan_chars_open_string[OF this, of ?st] assms(3)
  obtain st' where "scan_chars rest ?st = Some st'" "count st' = count st" by auto
  with assms(1,4) q show ?thesis
    by (simp add: check_balanced_parens_def scan_chars_append)
qed

lemma parse_loop_no_quote:
  "\<forall>j. i \<le> j \<and> j < length s \<longrightarrow> s ! j \<noteq> DQUOTE \<Longrightarrow>
   parse_prolog_string_loop s i result = Inl (ValueError ''Unterminated string'')"
proof (induction s i result rule: parse_prolog_string_loop.induct)
  case (1 s i result)
  show ?case
  proof (cases "i < length s")
    case False
    then show ?thesis by (subst parse_prolog_string_loop.simps) simp
  next
    case True
    with "1.prems" have nq: "s ! i \<noteq> DQUOTE" by simp
    show ?thesis
    proof (cases "s ! i = BACKSLASH \<and> i + 1 < length s")
      case True
      with \<open>i < length s\<close> nq "1.prems" "1.IH"(2)
      have "parse_prolog_string_loop s (i + 2) (result @ [s ! (i + 1)])
              = Inl (ValueError ''Unterminated string'')"
        by simp
      with True \<open>i < length s\<close> nq show ?thesis
        by (subst parse_prolog_string_loop.simps) simp
    next
      case False
      with \<open>i < length s\<close> nq "1.prems" "1.IH"(3)
      have "parse_prolog_string_loop s (i + 1) (result @ [s ! i])
              = Inl (ValueError ''Unterminated string'')"
        by simp
      with False \<open>i < length s\<close> nq show ?thesis
        by (subst parse_prolog_string_loop.simps) auto
    qed
  qed
qed

lemma parse_unterminated:
  assumes "DQUOTE \<notin> set rest"
  shows "parse_prolog_string ([DQUOTE] @ rest) = Inl (ValueError ''Unterminated string'')"
proof -
  have "(DQUOTE # rest) ! j \<noteq> DQUOTE" if "1 \<le> j \<and> j < length (DQUOTE # rest)" for j
  proof -
    from that have "(DQUOTE # rest) ! j = rest ! (j - 1)" and "j - 1 < length rest"
      by (auto simp: nth_Cons')
    with nth_mem[of "j - 1" rest] assms show ?thesis by metis
  qed
  then have "\<forall>j. 1 \<le> j \<and> j < length (DQUOTE # rest) \<longrightarrow> (DQUOTE # rest) ! j \<noteq> DQUOTE"
    by blast
  from parse_loop_no_quote[OF this] show ?thesis
    by (simp add: parse_prolog_string_def startswith_def)
qed

lemma parse_no_opening_quote:
  "\<not> startswith s [DQUOTE] \<Longrightarrow>
   parse_prolog_string s = Inl (ValueError ''String must start with quote'')"
  by (simp add: parse_prolog_string_def)

text \<open>
  Where the validator does reject an unterminated string: when the quote that opens it
  stands inside an open parenthesis, the counter is still positive at the end of the
  line, whatever the string holds (doubled quotes and escaped characters included).
\<close>

lemma open_string_inside_parens_rejected:
  assumes "line \<in> set (split_nl payload)" and "\<not> skipped_line line"
    and "strip line = pre @ [DQUOTE] @ rest"
    and "scan_chars pre scan_init = Some st"
    and "\<not> in_string st" and "\<not> escape_next st" and "0 < count st"
    and "parse_prolog_string ([DQUOTE] @ rest) = Inl (ValueError ''Unterminated string'')"
  shows "validate_prolog_syntax payload = Inr False"
proof -
  from open_string_inside_parens_unbalanced[OF assms(4-8)] assms(3)
  have "\<not> check_balanced_parens (strip line)" by simp
  with assms(1,2) show ?thesis by (rule unbalanced_line_of_payload_rejected)
qed

text \<open>
  Claim C8. The string parser does fail with the error \<open>Unterminated string\<close> on a
  string that is never closed and with the different error
  \<open>String must start with quote\<close> on a text that does not begin with a quote, but the
  validator does not return false for every line that contains an unterminated string:
  in the line \<open>concept(a) ").\<close> the only quote opens a string that is never closed, and
  the line validates as true. The validator never calls the string parser, and its
  scanner only tests the parenthesis counter, which is back at zero before the quote.
  The line \<open>concept(test, 1, "unclosed string\<close>, which the test cases of the module
  expect to be invalid for its unclosed string, is rejected for its parentheses.
\<close>

theorem unterminated_string_accepted:
  \<open>validate_prolog_syntax ''concept(a) ").'' = Inr True
   \<and> parse_prolog_string ''").'' = Inl (ValueError ''Unterminated string'')
   \<and> parse_prolog_string ''concept(a) ").''
       = Inl (ValueError ''String must start with quote'')
   \<and> validate_prolog_syntax ''concept(test, 1, "unclosed string'' = Inr False
   \<and> validate_fact ''concept(test, 1, "unclosed string''
       = Inr (False, ''Unbalanced parentheses'')\<close>
  by (simp add: validate_defs text_defs parse_prolog_string_def parse_prolog_string_loop.simps)

section \<open>The extraction loop\<close>


lemmas world_defs =
  emit_def sleep_def load_state_def save_state_def log_skip_def log_error_def
  log_invalid_output_def save_raw_response_def append_to_knowledge_base_def
  init_knowledge_base_def call_claude_def

lemma range_py_0_3: "range_py 0 3 = [0, 1, 2]"
  by (simp add: range_py_def upto_rec1)

lemma pages_started_append:
  "pages_started (es @ fs) = pages_started es @ pages_started fs"
  by (induction es rule: pages_started.induct) auto

lemma attempt_rejected:
  assumes "srv (calls w) body (page_num + 1) = Response payload"
    and "validate_prolog_syntax payload = Inr False"
  shows "attempt_loop srv max_retries body page_num (attempt # rest) w =
           (None, w\<lparr>state_file := Some (page_num + 1),
                    raw_files := (raw_files w)(raw_path (page_num + 1) \<mapsto> payload),
                    calls := calls w + 1,
                    trace := trace w @ [Request (page_num + 1), PrintInvalid (page_num + 1)]\<rparr>)"
  using assms by (simp add: world_defs handle_response_def Let_def)

text \<open>
  The raw file of a page: its name gives the page number back, so two pages never share
  a file.
\<close>

lemma str_int_small: "str_int 1 = ''1''" "str_int 2 = ''2''" "str_int 3 = ''3''"
  by code_simp+

lemma decode_str_nat:
  "foldl (\<lambda>a c. 10 * a + (of_char c - 48)) 0 (str_nat n) = n"
proof (induction n rule: str_nat.induct)
  case (1 n)
  show ?case
  proof (cases "n < 10")
    case True
    then show ?thesis by (subst str_nat.simps) simp
  next
    case False
    with 1 have "foldl (\<lambda>a c. 10 * a + (of_char c - 48)) 0 (str_nat (n div 10)) = n div 10"
      by simp
    with False show ?thesis by (subst str_nat.simps) simp
  qed
qed

lemma decode_zeros:
  "foldl (\<lambda>a c. 10 * a + (of_char c - 48)) (0::nat) (replicate k CHR ''0'') = 0"
  by (induction k) simp_all

lemma str_nat_not_Nil: "str_nat n \<noteq> []"
  by (subst str_nat.simps) simp

lemma digit_not_minus: "(d::nat) < 10 \<Longrightarrow> char_of (48 + d) \<noteq> CHR ''-''"
proof
  assume d: "d < 10" and e: "char_of (48 + d) = CHR ''-''"
  have "of_char (char_of (48 + d) :: char) = (of_char CHR ''-'' :: nat)"
    by (simp only: e)
  with d show False by simp
qed

lemma str_nat_no_minus: "CHR ''-'' \<notin> set (str_nat n)"
proof (induction n rule: str_nat.induct)
  case (1 n)
  show ?case
  proof (cases "n < 10")
    case True
    with digit_not_minus[of n] show ?thesis by (subst str_nat.simps) auto
  next
    case False
    have "n mod 10 < 10" by simp
    from digit_not_minus[OF this] False 1 show ?thesis by (subst str_nat.simps) auto
  qed
qed

lemma format_03d_decode:
  "(if hd (format_03d n) = CHR ''-''
    then - int (foldl (\<lambda>a c. 10 * a + (of_char c - 48)) 0 (tl (format_03d n)))
    else int (foldl (\<lambda>a c. 10 * a + (of_char c - 48)) 0 (format_03d n))) = n"
proof (cases "n < 0")
  case True
  then show ?thesis by (simp add: format_03d_def decode_zeros decode_str_nat)
next
  case False
  let ?s = "str_nat (nat n)"
  have "hd (replicate (3 - length ?s) CHR ''0'' @ ?s) \<in> set (replicate (3 - length ?s) CHR ''0'' @ ?s)"
    using str_nat_not_Nil[of "nat n"] by (intro hd_in_set) simp
  then have "hd (replicate (3 - length ?s) CHR ''0'' @ ?s) \<noteq> CHR ''-''"
    using str_nat_no_minus[of "nat n"] by auto
  with False show ?thesis by (simp add: format_03d_def decode_zeros decode_str_nat)
qed

lemma format_03d_inj:
  assumes "format_03d p = format_03d q"
  shows "p = q"
proof -
  let ?g = "\<lambda>s. if hd s = CHR ''-''
    then - int (foldl (\<lambda>a c. 10 * a + (of_char c - 48)) 0 (tl s))
    else int (foldl (\<lambda>a c. 10 * a + (of_char c - 48)) 0 s)"
  have "?g (format_03d p) = ?g (format_03d q)" by (simp only: assms)
  then show ?thesis by (simp only: format_03d_decode)
qed

lemma raw_path_inj: "raw_path p = raw_path q \<longleftrightarrow> p = q"
  using format_03d_inj by (auto simp: raw_path_def)


text \<open>
  Claim C6. When the payload generated for a page fails validation, the attempt loop
  writes the payload to the raw file of that page, a file that no other page has and
  the only one it touches, leaves the knowledge base as it was, stores the current page
  as progress, and sends no second request for the page: the page loop goes on with the
  next page after the base delay.
\<close>

theorem rejected_payload_kept_aside_not_retried:
  assumes "srv (calls w) body (page_num + 1) = Response payload"
    and "validate_prolog_syntax payload = Inr False"
    and "pages_index pages page_num = Inr body" and "50 \<le> length body"
  shows "(let (r, w') = attempt_loop srv max_retries body page_num (attempt # rest) w
          in r = None
             \<and> raw_files w' = (raw_files w)(raw_path (page_num + 1) \<mapsto> payload)
             \<and> (\<forall>q. q \<noteq> page_num + 1 \<longrightarrow>
                    raw_path q \<noteq> raw_path (page_num + 1)
                    \<and> raw_files w' (raw_path q) = raw_files w (raw_path q))
             \<and> knowledge w' = knowledge w
             \<and> state_file w' = Some (page_num + 1)
             \<and> calls w' = calls w + 1
             \<and> trace w' = trace w @ [Request (page_num + 1), PrintInvalid (page_num + 1)])
         \<and> page_loop srv pages total_pages 3 (page_num # later) w =
             page_loop srv pages total_pages 3 later
               (w\<lparr>state_file := Some (page_num + 1),
                  raw_files := (raw_files w)(raw_path (page_num + 1) \<mapsto> payload),
                  calls := calls w + 1,
                  trace := trace w @ [PrintPage (page_num + 1) total_pages,
                    Request (page_num + 1), PrintInvalid (page_num + 1), Sleep (1 / 2)]\<rparr>)"
proof -
  let ?w1 = "emit (PrintPage (page_num + 1) total_pages) w"
  have c: "srv (calls ?w1) body (page_num + 1) = Response payload"
    using assms(1) by (simp add: emit_def)
  have ne: "body \<noteq> []" using assms(4) by auto
  note a1 = attempt_rejected[of srv w body page_num payload max_retries attempt rest,
      OF assms(1,2)]
  note a2 = attempt_rejected[of srv ?w1 body page_num payload 3 0 "[1, 2]", OF c assms(2)]
  let ?w2 = "?w1\<lparr>state_file := Some (page_num + 1),
                  raw_files := (raw_files ?w1)(raw_path (page_num + 1) \<mapsto> payload),
                  calls := calls ?w1 + 1,
                  trace := trace ?w1 @ [Request (page_num + 1), PrintInvalid (page_num + 1)]\<rparr>"
  have pl: "page_loop srv pages total_pages 3 (page_num # later) w =
          page_loop srv pages total_pages 3 later (sleep (1 / 2) ?w2)"
    using assms(3,4) ne by (simp add: a2 range_py_0_3 Let_def del: attempt_loop.simps)
  have f: "sleep (1 / 2) ?w2 =
      w\<lparr>state_file := Some (page_num + 1),
        raw_files := (raw_files w)(raw_path (page_num + 1) \<mapsto> payload),
        calls := calls w + 1,
        trace := trace w @ [PrintPage (page_num + 1) total_pages,
          Request (page_num + 1), PrintInvalid (page_num + 1), Sleep (1 / 2)]\<rparr>"
    by (simp add: world_defs)
  show ?thesis
    unfolding pl f by (simp add: a1 raw_path_inj del: attempt_loop.simps)
qed


lemmas scenario_defs =
  page_text_def fresh_world_def no_concepts_def not_a_fact_def always_rate_limited_def
  rate_limited_times_def always_api_error_def

lemmas run_defs =
  process_pdf_def handle_response_def pages_index_def range_py_def upto_rec1 Let_def
  raw_path_def format_03d_def str_int_def str_nat.simps

theorem rejected_payload_kept_aside_not_retried_witness:
  "junk_for_page 0 page_text 1 = Response ''junk 1''
   \<and> junk_for_page 1 page_text 2 = Response ''junk 2''
   \<and> validate_prolog_syntax ''junk 1'' = Inr False
   \<and> validate_prolog_syntax ''junk 2'' = Inr False
   \<and> pages_index [page_text, page_text] 0 = Inr page_text
   \<and> pages_index [page_text, page_text] 1 = Inr page_text
   \<and> 50 \<le> length page_text
   \<and> page_loop junk_for_page [page_text, page_text] 2 3 [0, 1] fresh_world =
       (None, fresh_world\<lparr>state_file := Some 2,
          raw_files := [''output/raw/page_001.txt'' \<mapsto> ''junk 1'',
                        ''output/raw/page_002.txt'' \<mapsto> ''junk 2''],
          calls := 2,
          trace := [PrintPage 1 2, Request 1, PrintInvalid 1, Sleep (1 / 2),
                    PrintPage 2 2, Request 2, PrintInvalid 2, Sleep (1 / 2)]\<rparr>)"
proof -
  let ?pages = "[page_text, page_text]"
  let ?wa = "fresh_world\<lparr>state_file := Some 1,
          raw_files := [''output/raw/page_001.txt'' \<mapsto> ''junk 1''],
          calls := 1,
          trace := [PrintPage 1 2, Request 1, PrintInvalid 1, Sleep (1 / 2)]\<rparr>"
  have j1: "junk_for_page 0 page_text 1 = Response ''junk 1''"
    and j2: "junk_for_page 1 page_text 2 = Response ''junk 2''"
    by (simp_all add: junk_for_page_def str_int_small)
  have v1: "validate_prolog_syntax ''junk 1'' = Inr False"
    and v2: "validate_prolog_syntax ''junk 2'' = Inr False"
    by (simp_all add: validate_defs text_defs)
  have p1: "pages_index ?pages 0 = Inr page_text"
    and p2: "pages_index ?pages 1 = Inr page_text"
    by (simp_all add: pages_index_def)
  have l: "50 \<le> length page_text" by (simp add: page_text_def)
  have r1: "raw_path 1 = ''output/raw/page_001.txt''"
    and r2: "raw_path 2 = ''output/raw/page_002.txt''"
    by code_simp+
  have c1: "junk_for_page (calls fresh_world) page_text (0 + 1) = Response ''junk 1''"
    using j1 by (simp add: fresh_world_def)
  have c2: "junk_for_page (calls ?wa) page_text (1 + 1) = Response ''junk 2''"
    using j2 by (simp add: fresh_world_def)
  note t1 = rejected_payload_kept_aside_not_retried[where srv = junk_for_page and w = fresh_world and body = page_text
      and page_num = 0 and payload = "''junk 1''" and pages = ?pages and max_retries = 3
      and attempt = 0 and rest = "[1, 2]" and total_pages = 2 and later = "[1]",
      OF c1 v1 p1 l]
  note t2 = rejected_payload_kept_aside_not_retried[where srv = junk_for_page and w = ?wa and body = page_text
      and page_num = 1 and payload = "''junk 2''" and pages = ?pages and max_retries = 3
      and attempt = 0 and rest = "[1, 2]" and total_pages = 2 and later = "[]",
      OF c2 v2 p2 l]
  have s1: "page_loop junk_for_page ?pages 2 3 [0, 1] fresh_world
              = page_loop junk_for_page ?pages 2 3 [1] ?wa"
    using t1[THEN conjunct2] by (simp add: r1 fresh_world_def)
  have s2: "page_loop junk_for_page ?pages 2 3 [1] ?wa =
       (None, fresh_world\<lparr>state_file := Some 2,
          raw_files := [''output/raw/page_001.txt'' \<mapsto> ''junk 1'',
                        ''output/raw/page_002.txt'' \<mapsto> ''junk 2''],
          calls := 2,
          trace := [PrintPage 1 2, Request 1, PrintInvalid 1, Sleep (1 / 2),
                    PrintPage 2 2, Request 2, PrintInvalid 2, Sleep (1 / 2)]\<rparr>)"
    using t2[THEN conjunct2] by (simp add: r2 fresh_world_def)
  from j1 j2 v1 v2 p1 p2 l s1 s2 show ?thesis by simp
qed

lemma length_range_py: "length (range_py 0 m) = nat m"
  by (simp add: range_py_def)

lemma backoff_events_Nil: "backoff_events p [] = []"
  by (simp add: backoff_events_def)

lemma backoff_events_Cons:
  "backoff_events p (a # as) =
     [Request p, PrintRateLimit (2 ^ nat a), Sleep (of_int (2 ^ nat a))] @ backoff_events p as"
  by (simp add: backoff_events_def)

lemma attempts_all_rate_limited:
  "\<forall>k < length as. srv (calls w + k) body (page_num + 1) = Raises RateLimitError \<Longrightarrow>
   attempt_loop srv m body page_num as w =
     (None, w\<lparr>calls := calls w + length as,
              trace := trace w @ backoff_events (page_num + 1) as\<rparr>)"
proof (induction as arbitrary: w)
  case Nil
  show ?case by (simp add: backoff_events_Nil)
next
  case (Cons a as)
  let ?w1 = "w\<lparr>calls := calls w + 1,
               trace := trace w @ [Request (page_num + 1), PrintRateLimit (2 ^ nat a),
                 Sleep (of_int (2 ^ nat a))]\<rparr>"
  from Cons.prems have first: "srv (calls w) body (page_num + 1) = Raises RateLimitError"
    by force
  have "srv (calls ?w1 + k) body (page_num + 1) = Raises RateLimitError" if "k < length as" for k
    using Cons.prems that by (auto dest: spec[of _ "Suc k"])
  then have ih: "attempt_loop srv m body page_num as ?w1 =
     (None, ?w1\<lparr>calls := calls ?w1 + length as,
              trace := trace ?w1 @ backoff_events (page_num + 1) as\<rparr>)"
    by (intro Cons.IH) blast
  have "attempt_loop srv m body page_num (a # as) w = attempt_loop srv m body page_num as ?w1"
    using first by (simp add: world_defs Let_def)
  with ih show ?case by (simp add: backoff_events_Cons)
qed


text \<open>
  Claim C10. When every one of the \<open>max_retries\<close> requests for a page is answered by a
  rate-limit error, the attempt loop raises nothing, leaves the progress state, the
  knowledge base and the raw files as they were, and after the last wait the page loop
  goes on with the next page: nothing that is persisted records the page.
\<close>

theorem rate_limited_page_silently_abandoned:
  assumes "\<forall>k < nat max_retries. srv (calls w + k) body (page_num + 1) = Raises RateLimitError"
    and "pages_index pages page_num = Inr body" and "50 \<le> length body"
  shows "(let (r, w') = attempt_loop srv max_retries body page_num (range_py 0 max_retries) w
          in r = None
             \<and> state_file w' = state_file w \<and> load_state w' = load_state w
             \<and> knowledge w' = knowledge w
             \<and> raw_files w' = raw_files w
             \<and> calls w' = calls w + nat max_retries
             \<and> trace w' = trace w @ backoff_events (page_num + 1) (range_py 0 max_retries))
         \<and> page_loop srv pages total_pages max_retries (page_num # later) w =
             page_loop srv pages total_pages max_retries later
               (w\<lparr>calls := calls w + nat max_retries,
                  trace := trace w @ [PrintPage (page_num + 1) total_pages]
                    @ backoff_events (page_num + 1) (range_py 0 max_retries)
                    @ [Sleep (1 / 2)]\<rparr>)
         \<and> backoff_events (page_num + 1) (range_py 0 3) =
             [Request (page_num + 1), PrintRateLimit 1, Sleep 1,
              Request (page_num + 1), PrintRateLimit 2, Sleep 2,
              Request (page_num + 1), PrintRateLimit 4, Sleep 4]"
proof -
  let ?as = "range_py 0 max_retries"
  let ?w1 = "emit (PrintPage (page_num + 1) total_pages) w"
  from assms(1) have a:
    "\<forall>k < length ?as. srv (calls w + k) body (page_num + 1) = Raises RateLimitError"
    by (simp add: length_range_py)
  then have a1:
    "\<forall>k < length ?as. srv (calls ?w1 + k) body (page_num + 1) = Raises RateLimitError"
    by (simp add: emit_def)
  note r = attempts_all_rate_limited
      [where as = ?as and srv = srv and w = w and body = body and page_num = page_num
         and m = max_retries, OF a]
  note r1 = attempts_all_rate_limited
      [where as = ?as and srv = srv and w = ?w1 and body = body and page_num = page_num
         and m = max_retries, OF a1]
  have ne: "body \<noteq> []" using assms(3) by auto
  have pl: "page_loop srv pages total_pages max_retries (page_num # later) w =
      page_loop srv pages total_pages max_retries later
        (sleep (1 / 2) (?w1\<lparr>calls := calls ?w1 + length ?as,
              trace := trace ?w1 @ backoff_events (page_num + 1) ?as\<rparr>))"
    using assms(2,3) ne by (simp add: r1 Let_def del: attempt_loop.simps)
  have f: "sleep (1 / 2) (?w1\<lparr>calls := calls ?w1 + length ?as,
              trace := trace ?w1 @ backoff_events (page_num + 1) ?as\<rparr>) =
      w\<lparr>calls := calls w + nat max_retries,
        trace := trace w @ [PrintPage (page_num + 1) total_pages]
          @ backoff_events (page_num + 1) (range_py 0 max_retries) @ [Sleep (1 / 2)]\<rparr>"
    by (simp add: world_defs length_range_py)
  have b: "backoff_events (page_num + 1) (range_py 0 3) =
             [Request (page_num + 1), PrintRateLimit 1, Sleep 1,
              Request (page_num + 1), PrintRateLimit 2, Sleep 2,
              Request (page_num + 1), PrintRateLimit 4, Sleep 4]"
    by (simp add: range_py_0_3 backoff_events_def)
  show ?thesis
    unfolding pl f by (simp add: r b length_range_py load_state_def del: attempt_loop.simps)
qed

theorem rate_limited_page_silently_abandoned_witness:
  "always_rate_limited (calls fresh_world + 0) page_text (0 + 1) = Raises RateLimitError
   \<and> always_rate_limited (calls fresh_world + 1) page_text (0 + 1) = Raises RateLimitError
   \<and> always_rate_limited (calls fresh_world + 2) page_text (0 + 1) = Raises RateLimitError
   \<and> pages_index [page_text] 0 = Inr page_text \<and> 50 \<le> length page_text
   \<and> page_loop always_rate_limited [page_text] 1 3 [0] fresh_world =
       (None, fresh_world\<lparr>calls := 3,
          trace := [PrintPage 1 1, Request 1, PrintRateLimit 1, Sleep 1,
            Request 1, PrintRateLimit 2, Sleep 2, Request 1, PrintRateLimit 4, Sleep 4,
            Sleep (1 / 2)]\<rparr>)"
proof -
  have 0: "always_rate_limited (calls fresh_world + 0) page_text (0 + 1) = Raises RateLimitError
     \<and> always_rate_limited (calls fresh_world + 1) page_text (0 + 1) = Raises RateLimitError
     \<and> always_rate_limited (calls fresh_world + 2) page_text (0 + 1) = Raises RateLimitError"
    by (simp add: always_rate_limited_def)
  have 1: "\<forall>k < nat 3. always_rate_limited (calls fresh_world + k) page_text (0 + 1)
             = Raises RateLimitError"
  proof (intro allI impI)
    fix k :: nat
    assume "k < nat 3"
    then have "k = 0 \<or> k = 1 \<or> k = 2" by arith
    with 0 show "always_rate_limited (calls fresh_world + k) page_text (0 + 1)
                   = Raises RateLimitError"
      by auto
  qed
  have 2: "pages_index [page_text] 0 = Inr page_text"
    by (simp add: pages_index_def)
  have 3: "50 \<le> length page_text" by (simp add: page_text_def)
  note th = rate_limited_page_silently_abandoned
      [where srv = always_rate_limited and w = fresh_world and body = page_text
         and page_num = 0 and pages = "[page_text]" and max_retries = 3
         and total_pages = 1 and later = "[]", OF 1 2 3]
  from th have pl: "page_loop always_rate_limited [page_text] 1 3 [0] fresh_world =
      page_loop always_rate_limited [page_text] 1 3 []
        (fresh_world\<lparr>calls := calls fresh_world + nat 3,
           trace := trace fresh_world @ [PrintPage (0 + 1) 1]
             @ backoff_events (0 + 1) (range_py 0 3) @ [Sleep (1 / 2)]\<rparr>)"
    by blast
  from th have b: "backoff_events (0 + 1) (range_py 0 3) =
             [Request (0 + 1), PrintRateLimit 1, Sleep 1,
              Request (0 + 1), PrintRateLimit 2, Sleep 2,
              Request (0 + 1), PrintRateLimit 4, Sleep 4]"
    by blast
  have "page_loop always_rate_limited [page_text] 1 3 [0] fresh_world =
       (None, fresh_world\<lparr>calls := 3,
          trace := [PrintPage 1 1, Request 1, PrintRateLimit 1, Sleep 1,
            Request 1, PrintRateLimit 2, Sleep 2, Request 1, PrintRateLimit 4, Sleep 4,
            Sleep (1 / 2)]\<rparr>)"
    unfolding pl b by (simp add: fresh_world_def)
  with 0 2 3 show ?thesis by blast
qed


lemma range_py_snoc: "1 \<le> m \<Longrightarrow> range_py 0 m = range_py 0 (m - 1) @ [m - 1]"
  using upto_rec2[of 0 "m - 1"] by (simp add: range_py_def)

lemma last_not_in_range_py: "m - 1 \<notin> set (range_py 0 (m - 1))"
  by (simp add: range_py_def)

lemma attempt_api_error:
  assumes "srv (calls w) body (page_num + 1) = Raises APIError"
  shows "attempt_loop srv m body page_num (attempt # rest) w =
     (let w2 = w\<lparr>calls := calls w + 1,
                   trace := trace w @ [Request (page_num + 1),
                     PrintError (page_num + 1) APIError],
                   state_file := Some page_num\<rparr>
      in if attempt = m - 1 then (Some APIError, w2)
         else attempt_loop srv m body page_num rest w2)"
  using assms by (simp add: world_defs Let_def)

lemma attempt_rate_limited:
  assumes "srv (calls w) body (page_num + 1) = Raises RateLimitError"
  shows "attempt_loop srv m body page_num (attempt # rest) w =
     attempt_loop srv m body page_num rest
       (w\<lparr>calls := calls w + 1,
          trace := trace w @ [Request (page_num + 1), PrintRateLimit (2 ^ nat attempt),
            Sleep (of_int (2 ^ nat attempt))]\<rparr>)"
  using assms by (simp add: world_defs Let_def)

lemma attempts_fail_until_last:
  assumes "\<forall>k < length as. srv (calls w + k) body (page_num + 1) = Raises RateLimitError
                          \<or> srv (calls w + k) body (page_num + 1) = Raises APIError"
    and "m - 1 \<notin> set as"
    and "srv (calls w + length as) body (page_num + 1) = Raises APIError"
  shows "raised_on_page page_num w (length as + 1)
           (attempt_loop srv m body page_num (as @ (m - 1) # rest) w)"
  using assms
proof (induction as arbitrary: w)
  case Nil
  then show ?case
    by (simp add: attempt_api_error raised_on_page_def pages_started_append
          del: attempt_loop.simps)
next
  case (Cons a as)
  from Cons.prems(2) have am: "a \<noteq> m - 1" and nin: "m - 1 \<notin> set as" by auto
  from Cons.prems(1) have first:
    "srv (calls w) body (page_num + 1) = Raises RateLimitError
     \<or> srv (calls w) body (page_num + 1) = Raises APIError"
    by force
  have step: "\<exists>w1. attempt_loop srv m body page_num ((a # as) @ (m - 1) # rest) w
                 = attempt_loop srv m body page_num (as @ (m - 1) # rest) w1
               \<and> calls w1 = calls w + 1 \<and> knowledge w1 = knowledge w
               \<and> raw_files w1 = raw_files w
               \<and> pages_started (trace w1) = pages_started (trace w)"
  proof (rule disjE[OF first])
    assume rl: "srv (calls w) body (page_num + 1) = Raises RateLimitError"
    let ?w1 = "w\<lparr>calls := calls w + 1,
          trace := trace w @ [Request (page_num + 1), PrintRateLimit (2 ^ nat a),
            Sleep (of_int (2 ^ nat a))]\<rparr>"
    have "attempt_loop srv m body page_num ((a # as) @ (m - 1) # rest) w
            = attempt_loop srv m body page_num (as @ (m - 1) # rest) ?w1"
      using rl by (simp add: attempt_rate_limited del: attempt_loop.simps)
    moreover have "calls ?w1 = calls w + 1 \<and> knowledge ?w1 = knowledge w
        \<and> raw_files ?w1 = raw_files w
        \<and> pages_started (trace ?w1) = pages_started (trace w)"
      by (simp add: pages_started_append)
    ultimately show ?thesis by blast
  next
    assume api: "srv (calls w) body (page_num + 1) = Raises APIError"
    let ?w1 = "w\<lparr>calls := calls w + 1,
                   trace := trace w @ [Request (page_num + 1),
                     PrintError (page_num + 1) APIError],
                   state_file := Some page_num\<rparr>"
    have "attempt_loop srv m body page_num ((a # as) @ (m - 1) # rest) w
            = attempt_loop srv m body page_num (as @ (m - 1) # rest) ?w1"
      using api am by (simp add: attempt_api_error Let_def del: attempt_loop.simps)
    moreover have "calls ?w1 = calls w + 1 \<and> knowledge ?w1 = knowledge w
        \<and> raw_files ?w1 = raw_files w
        \<and> pages_started (trace ?w1) = pages_started (trace w)"
      by (simp add: pages_started_append)
    ultimately show ?thesis by blast
  qed
  then obtain w1 where w1:
    "attempt_loop srv m body page_num ((a # as) @ (m - 1) # rest) w
       = attempt_loop srv m body page_num (as @ (m - 1) # rest) w1"
    "calls w1 = calls w + 1" "knowledge w1 = knowledge w" "raw_files w1 = raw_files w"
    "pages_started (trace w1) = pages_started (trace w)"
    by blast
  have p1: "\<forall>k < length as. srv (calls w1 + k) body (page_num + 1) = Raises RateLimitError
                          \<or> srv (calls w1 + k) body (page_num + 1) = Raises APIError"
    using Cons.prems(1) w1(2) by (auto dest: spec[of _ "Suc k" for k])
  have p3: "srv (calls w1 + length as) body (page_num + 1) = Raises APIError"
    using Cons.prems(3) w1(2) by simp
  from Cons.IH[OF p1 nin p3] w1 show ?case
    by (simp add: raised_on_page_def del: attempt_loop.simps)
qed


text \<open>
  Claim C3. When the request for page \<open>N = page_num + 1\<close> fails with a service error that
  is not a rate limit on the final attempt (the earlier attempts having failed too), the
  page loop ends with that error, the persisted progress is \<open>N - 1\<close>, and no later page
  is started. On any attempt such an error is logged and \<open>N - 1\<close> is persisted; before
  the final attempt the loop then goes on with the next attempt for the same page.
\<close>

theorem api_error_on_final_attempt_aborts:
  assumes "1 \<le> max_retries"
    and "\<forall>k < nat (max_retries - 1).
           srv (calls w + k) body (page_num + 1) = Raises RateLimitError
           \<or> srv (calls w + k) body (page_num + 1) = Raises APIError"
    and "srv (calls w + nat (max_retries - 1)) body (page_num + 1) = Raises APIError"
    and "pages_index pages page_num = Inr body" and "50 \<le> length body"
  shows "(let (r, w') = page_loop srv pages total_pages max_retries (page_num # later) w
          in r = Some APIError
             \<and> state_file w' = Some ((page_num + 1) - 1)
             \<and> calls w' = calls w + nat max_retries
             \<and> pages_started (trace w') = pages_started (trace w) @ [page_num + 1]
             \<and> knowledge w' = knowledge w \<and> raw_files w' = raw_files w)
         \<and> (srv (calls v) body (page_num + 1) = Raises APIError \<longrightarrow>
              attempt_loop srv max_retries body page_num (attempt # rest) v =
                (let v2 = v\<lparr>calls := calls v + 1,
                            trace := trace v @ [Request (page_num + 1),
                              PrintError (page_num + 1) APIError],
                            state_file := Some ((page_num + 1) - 1)\<rparr>
                 in if attempt = max_retries - 1 then (Some APIError, v2)
                    else attempt_loop srv max_retries body page_num rest v2))"
proof -
  let ?as = "range_py 0 (max_retries - 1)"
  let ?w1 = "emit (PrintPage (page_num + 1) total_pages) w"
  let ?res = "attempt_loop srv max_retries body page_num (range_py 0 max_retries) ?w1"
  have len: "length ?as = nat (max_retries - 1)" by (rule length_range_py)
  have p1: "\<forall>k < length ?as.
           srv (calls ?w1 + k) body (page_num + 1) = Raises RateLimitError
           \<or> srv (calls ?w1 + k) body (page_num + 1) = Raises APIError"
    using assms(2) by (simp add: len emit_def)
  have p3: "srv (calls ?w1 + length ?as) body (page_num + 1) = Raises APIError"
    using assms(3) by (simp add: len emit_def)
  have "raised_on_page page_num ?w1 (length ?as + 1)
          (attempt_loop srv max_retries body page_num (?as @ (max_retries - 1) # []) ?w1)"
    using p1 last_not_in_range_py p3 by (rule attempts_fail_until_last)
  then have res: "raised_on_page page_num ?w1 (nat (max_retries - 1) + 1) ?res"
    using range_py_snoc[OF assms(1)] by (simp add: len)
  have ne: "body \<noteq> []" using assms(5) by auto
  from res have f: "fst ?res = Some APIError" by (simp add: raised_on_page_def)
  have "page_loop srv pages total_pages max_retries (page_num # later) w =
          (case ?res of (Some e, w2) \<Rightarrow> (Some e, w2)
           | (None, w2) \<Rightarrow>
               page_loop srv pages total_pages max_retries later (sleep (1 / 2) w2))"
    using assms(4,5) ne by (simp add: Let_def del: attempt_loop.simps)
  also have "\<dots> = ?res" using f by (cases ?res) auto
  finally have pl: "page_loop srv pages total_pages max_retries (page_num # later) w = ?res" .
  have n: "nat (max_retries - 1) + 1 = nat max_retries" using assms(1) by simp
  from res have first: "fst ?res = Some APIError
             \<and> state_file (snd ?res) = Some ((page_num + 1) - 1)
             \<and> calls (snd ?res) = calls w + nat max_retries
             \<and> pages_started (trace (snd ?res)) = pages_started (trace w) @ [page_num + 1]
             \<and> knowledge (snd ?res) = knowledge w \<and> raw_files (snd ?res) = raw_files w"
    unfolding raised_on_page_def n by (simp add: emit_def pages_started_append)
  have second: "srv (calls v) body (page_num + 1) = Raises APIError \<longrightarrow>
              attempt_loop srv max_retries body page_num (attempt # rest) v =
                (let v2 = v\<lparr>calls := calls v + 1,
                            trace := trace v @ [Request (page_num + 1),
                              PrintError (page_num + 1) APIError],
                            state_file := Some ((page_num + 1) - 1)\<rparr>
                 in if attempt = max_retries - 1 then (Some APIError, v2)
                    else attempt_loop srv max_retries body page_num rest v2)"
    using attempt_api_error[of srv v body page_num max_retries attempt rest] by simp
  from first second show ?thesis
    unfolding pl by (simp only: split_def Let_def)
qed


theorem api_error_on_final_attempt_aborts_witness:
  "(1::int) \<le> 3
   \<and> always_api_error (calls fresh_world + 0) page_text (1 + 1) = Raises APIError
   \<and> always_api_error (calls fresh_world + 1) page_text (1 + 1) = Raises APIError
   \<and> always_api_error (calls fresh_world + nat (3 - 1)) page_text (1 + 1) = Raises APIError
   \<and> pages_index [page_text, page_text, page_text] 1 = Inr page_text
   \<and> 50 \<le> length page_text
   \<and> fst (page_loop always_api_error [page_text, page_text, page_text] 3 3 [1, 2]
            fresh_world) = Some APIError
   \<and> state_file (snd (page_loop always_api_error [page_text, page_text, page_text] 3 3
                         [1, 2] fresh_world)) = Some 1
   \<and> calls (snd (page_loop always_api_error [page_text, page_text, page_text] 3 3 [1, 2]
                    fresh_world)) = 3
   \<and> pages_started (trace (snd (page_loop always_api_error
        [page_text, page_text, page_text] 3 3 [1, 2] fresh_world))) = [2]"
proof -
  have 1: "(1::int) \<le> 3" by simp
  have 0: "always_api_error (calls fresh_world + 0) page_text (1 + 1) = Raises APIError
     \<and> always_api_error (calls fresh_world + 1) page_text (1 + 1) = Raises APIError"
    by (simp add: always_api_error_def)
  have 2: "\<forall>k < nat (3 - 1).
         always_api_error (calls fresh_world + k) page_text (1 + 1) = Raises RateLimitError
         \<or> always_api_error (calls fresh_world + k) page_text (1 + 1) = Raises APIError"
  proof (intro allI impI)
    fix k :: nat
    assume "k < nat (3 - 1)"
    then have "k = 0 \<or> k = 1" by arith
    with 0 show "always_api_error (calls fresh_world + k) page_text (1 + 1)
                   = Raises RateLimitError
                 \<or> always_api_error (calls fresh_world + k) page_text (1 + 1)
                   = Raises APIError"
      by auto
  qed
  have 3: "always_api_error (calls fresh_world + nat (3 - 1)) page_text (1 + 1)
             = Raises APIError"
    by (simp add: always_api_error_def)
  have 4: "pages_index [page_text, page_text, page_text] 1 = Inr page_text"
    by (simp add: pages_index_def)
  have 5: "50 \<le> length page_text" by (simp add: page_text_def)
  note th = api_error_on_final_attempt_aborts
      [where srv = always_api_error and w = fresh_world and body = page_text
         and page_num = 1 and pages = "[page_text, page_text, page_text]"
         and max_retries = 3 and total_pages = 3 and later = "[2]", OF 1 2 3 4 5]
  from th have
    "fst (page_loop always_api_error [page_text, page_text, page_text] 3 3 [1, 2]
            fresh_world) = Some APIError
     \<and> state_file (snd (page_loop always_api_error [page_text, page_text, page_text] 3 3
                         [1, 2] fresh_world)) = Some 1
     \<and> calls (snd (page_loop always_api_error [page_text, page_text, page_text] 3 3 [1, 2]
                    fresh_world)) = 3
     \<and> pages_started (trace (snd (page_loop always_api_error
          [page_text, page_text, page_text] 3 3 [1, 2] fresh_world))) = [2]"
    by (simp add: split_def Let_def fresh_world_def del: page_loop.simps attempt_loop.simps)
  with 1 0 3 4 5 show ?thesis by blast
qed

text \<open>
  Claim C2 as stated fails: the retry ceiling is three attempts in all. With a service
  that answers the first three requests by a rate-limit error and would answer the
  fourth with a payload, the run sends three requests, waits 1, 2 and 4 seconds, and
  goes on: the page is never generated, nothing is appended and no progress is stored.
\<close>

theorem fourth_attempt_counterexample:
  "rate_limited_times 3 3 page_text 1 = Response ''% No concepts on this page''
   \<and> fst (process_pdf (rate_limited_times 3) [page_text] None None fresh_world) = None
   \<and> calls (snd (process_pdf (rate_limited_times 3) [page_text] None None fresh_world)) = 3
   \<and> knowledge (snd (process_pdf (rate_limited_times 3) [page_text] None None fresh_world))
       = Some KNOWLEDGE_HEADER
   \<and> state_file (snd (process_pdf (rate_limited_times 3) [page_text] None None fresh_world))
       = None
   \<and> trace (snd (process_pdf (rate_limited_times 3) [page_text] None None fresh_world)) =
       [PrintRange 1 1 1, PrintPage 1 1, Request 1, PrintRateLimit 1, Sleep 1,
        Request 1, PrintRateLimit 2, Sleep 2, Request 1, PrintRateLimit 4, Sleep 4,
        Sleep (1 / 2), PrintComplete]"
  by (simp add: process_pdf_def world_defs fresh_world_def rate_limited_times_def
        page_text_def range_py_def upto_rec1 pages_index_def Let_def)

text \<open>
  Claim C2, amended. For a page whose request is answered by a rate-limit error on the
  first two attempts and by a payload on the third, the third attempt is made, after
  waits of 1 and 2 seconds (\<open>2 ** attempt\<close> per failed attempt), and the payload is
  validated and committed by the body of the \<open>try\<close>. The retry ceiling is three attempts:
  after three rate-limit errors the waits have been 1, 2 and 4 seconds, no fourth request
  is sent and the attempt loop ends without a result for the page.
\<close>

theorem third_attempt_is_the_last:
  "(srv (calls w) body (page_num + 1) = Raises RateLimitError
    \<and> srv (calls w + 1) body (page_num + 1) = Raises RateLimitError
    \<and> srv (calls w + 2) body (page_num + 1) = Response payload \<longrightarrow>
      attempt_loop srv 3 body page_num (range_py 0 3) w =
        handle_response (page_num + 1) payload
          (w\<lparr>calls := calls w + 3,
             trace := trace w @
               [Request (page_num + 1), PrintRateLimit 1, Sleep 1,
                Request (page_num + 1), PrintRateLimit 2, Sleep 2,
                Request (page_num + 1)]\<rparr>))
   \<and> ((\<forall>k < 3. srv (calls w + k) body (page_num + 1) = Raises RateLimitError) \<longrightarrow>
      attempt_loop srv 3 body page_num (range_py 0 3) w =
        (None, w\<lparr>calls := calls w + 3,
                 trace := trace w @
                   [Request (page_num + 1), PrintRateLimit 1, Sleep 1,
                    Request (page_num + 1), PrintRateLimit 2, Sleep 2,
                    Request (page_num + 1), PrintRateLimit 4, Sleep 4]\<rparr>))"
proof (intro conjI impI)
  assume a: "srv (calls w) body (page_num + 1) = Raises RateLimitError
    \<and> srv (calls w + 1) body (page_num + 1) = Raises RateLimitError
    \<and> srv (calls w + 2) body (page_num + 1) = Response payload"
  then show "attempt_loop srv 3 body page_num (range_py 0 3) w =
        handle_response (page_num + 1) payload
          (w\<lparr>calls := calls w + 3,
             trace := trace w @
               [Request (page_num + 1), PrintRateLimit 1, Sleep 1,
                Request (page_num + 1), PrintRateLimit 2, Sleep 2,
                Request (page_num + 1)]\<rparr>)"
    by (simp add: range_py_0_3 world_defs Let_def eval_nat_numeral)
next
  assume a: "\<forall>k < 3. srv (calls w + k) body (page_num + 1) = Raises RateLimitError"
  have "\<forall>k < length (range_py 0 3). srv (calls w + k) body (page_num + 1) = Raises RateLimitError"
    using a by (simp add: range_py_0_3)
  from attempts_all_rate_limited
      [where as = "range_py 0 3" and srv = srv and w = w and body = body
         and page_num = page_num and m = 3, OF this]
  show "attempt_loop srv 3 body page_num (range_py 0 3) w =
        (None, w\<lparr>calls := calls w + 3,
                 trace := trace w @
                   [Request (page_num + 1), PrintRateLimit 1, Sleep 1,
                    Request (page_num + 1), PrintRateLimit 2, Sleep 2,
                    Request (page_num + 1), PrintRateLimit 4, Sleep 4]\<rparr>)"
    by (simp add: range_py_0_3 backoff_events_def)
qed

theorem third_attempt_is_the_last_witness:
  "rate_limited_times 2 (calls fresh_world) page_text (0 + 1) = Raises RateLimitError
   \<and> rate_limited_times 2 (calls fresh_world + 1) page_text (0 + 1) = Raises RateLimitError
   \<and> rate_limited_times 2 (calls fresh_world + 2) page_text (0 + 1)
       = Response ''% No concepts on this page''
   \<and> attempt_loop (rate_limited_times 2) 3 page_text 0 (range_py 0 3) fresh_world =
       handle_response (0 + 1) ''% No concepts on this page''
         (fresh_world\<lparr>calls := calls fresh_world + 3,
            trace := trace fresh_world @
              [Request (0 + 1), PrintRateLimit 1, Sleep 1,
               Request (0 + 1), PrintRateLimit 2, Sleep 2, Request (0 + 1)]\<rparr>)
   \<and> fst (handle_response (0 + 1) ''% No concepts on this page''
         (fresh_world\<lparr>calls := calls fresh_world + 3,
            trace := trace fresh_world @
              [Request (0 + 1), PrintRateLimit 1, Sleep 1,
               Request (0 + 1), PrintRateLimit 2, Sleep 2, Request (0 + 1)]\<rparr>)) = None
   \<and> state_file (snd (handle_response (0 + 1) ''% No concepts on this page''
         (fresh_world\<lparr>calls := calls fresh_world + 3,
            trace := trace fresh_world @
              [Request (0 + 1), PrintRateLimit 1, Sleep 1,
               Request (0 + 1), PrintRateLimit 2, Sleep 2, Request (0 + 1)]\<rparr>))) = Some 1"
proof -
  have 1: "rate_limited_times 2 (calls fresh_world) page_text (0 + 1) = Raises RateLimitError
   \<and> rate_limited_times 2 (calls fresh_world + 1) page_text (0 + 1) = Raises RateLimitError
   \<and> rate_limited_times 2 (calls fresh_world + 2) page_text (0 + 1)
       = Response ''% No concepts on this page''"
    by (simp add: rate_limited_times_def fresh_world_def)
  have 2: "validate_prolog_syntax ''% No concepts on this page'' = Inr True"
    by (simp add: validate_defs text_defs)
  have 3: "fst (handle_response (0 + 1) ''% No concepts on this page''
         (fresh_world\<lparr>calls := calls fresh_world + 3,
            trace := trace fresh_world @
              [Request (0 + 1), PrintRateLimit 1, Sleep 1,
               Request (0 + 1), PrintRateLimit 2, Sleep 2, Request (0 + 1)]\<rparr>)) = None
   \<and> state_file (snd (handle_response (0 + 1) ''% No concepts on this page''
         (fresh_world\<lparr>calls := calls fresh_world + 3,
            trace := trace fresh_world @
              [Request (0 + 1), PrintRateLimit 1, Sleep 1,
               Request (0 + 1), PrintRateLimit 2, Sleep 2, Request (0 + 1)]\<rparr>))) = Some 1"
    by (simp add: handle_response_def 2 world_defs Let_def)
  from third_attempt_is_the_last
      [where srv = "rate_limited_times 2" and w = fresh_world and body = page_text
         and page_num = 0 and payload = "''% No concepts on this page''"] 1 3
  show ?thesis by blast
qed


lemma no_concepts_valid: "validate_prolog_syntax ''% No concepts on this page'' = Inr True"
  by (simp add: validate_defs text_defs)

lemma accept_no_concepts:
  "handle_response n ''% No concepts on this page'' w =
     (None, w\<lparr>knowledge := Some ((case knowledge w of None \<Rightarrow> [] | Some k \<Rightarrow> k) @ page_entry n),
              state_file := Some n, trace := trace w @ [PrintOk n]\<rparr>)"
  by (simp add: handle_response_def no_concepts_valid world_defs page_entry_def endswith_def Let_def)

lemma after_two_pages_eq:
  "after_two_pages =
     \<lparr>state_file = Some 2,
      knowledge = Some (KNOWLEDGE_HEADER @ page_entry 1 @ page_entry 2),
      raw_files = Map.empty, calls = 2,
      trace = [PrintRange 1 2 3, PrintPage 1 3, Request 1, PrintOk 1, Sleep (1 / 2),
               PrintPage 2 3, Request 2, PrintOk 2, Sleep (1 / 2), PrintComplete]\<rparr>"
  by (simp add: after_two_pages_def three_pages_def process_pdf_def world_defs fresh_world_def
        no_concepts_def page_text_def range_py_def upto_rec1 pages_index_def Let_def
        accept_no_concepts)


lemma second_run_eq:
  "process_pdf no_concepts three_pages None None after_two_pages =
     (None,
      \<lparr>state_file = Some 3,
       knowledge = Some (KNOWLEDGE_HEADER @ page_entry 1 @ page_entry 2 @ page_entry 2
                         @ page_entry 3),
       raw_files = Map.empty, calls = 4,
       trace = [PrintRange 1 2 3, PrintPage 1 3, Request 1, PrintOk 1, Sleep (1 / 2),
                PrintPage 2 3, Request 2, PrintOk 2, Sleep (1 / 2), PrintComplete,
                PrintResuming 2, PrintRange 2 3 3,
                PrintPage 2 3, Request 2, PrintOk 2, Sleep (1 / 2),
                PrintPage 3 3, Request 3, PrintOk 3, Sleep (1 / 2), PrintComplete]\<rparr>)"
  by (simp add: after_two_pages_eq three_pages_def process_pdf_def world_defs
        no_concepts_def page_text_def range_py_def upto_rec1 pages_index_def Let_def
        accept_no_concepts)

text \<open>
  Claim C1 as stated fails. A first run over the first two of three pages stores 2 as
  the last page processed. The next run, given no start page, starts on page 2 again,
  not on page 3, and appends the facts of page 2 to the knowledge base a second time.
\<close>

theorem resume_reprocesses_persisted_page:
  "state_file after_two_pages = Some 2
   \<and> pages_started (trace after_two_pages) = [1, 2]
   \<and> fst (process_pdf no_concepts three_pages None None after_two_pages) = None
   \<and> pages_started (trace (snd (process_pdf no_concepts three_pages None None
                                  after_two_pages))) = [1, 2, 2, 3]
   \<and> knowledge (snd (process_pdf no_concepts three_pages None None after_two_pages)) =
       Some (KNOWLEDGE_HEADER @ page_entry 1 @ page_entry 2 @ page_entry 2 @ page_entry 3)"
  by (simp add: second_run_eq) (simp add: after_two_pages_eq)

lemma handle_response_trace: "\<exists>es. trace (snd (handle_response n p w)) = trace w @ es"
proof (cases "validate_prolog_syntax p")
  case (Inl e)
  then show ?thesis by (simp add: handle_response_def)
next
  case (Inr ok)
  then show ?thesis by (cases ok) (simp_all add: handle_response_def world_defs)
qed

lemma attempt_loop_trace:
  "\<exists>es. trace (snd (attempt_loop srv m body page_num as w)) = trace w @ es"
proof (induction as arbitrary: w)
  case Nil
  show ?case by simp
next
  case (Cons a as)
  let ?w1 = "snd (call_claude srv body (page_num + 1) w)"
  have w1: "trace ?w1 = trace w @ [Request (page_num + 1)]"
    by (simp add: call_claude_def)
  show ?case
  proof (cases "srv (calls w) body (page_num + 1)")
    case (Response payload)
    then have "attempt_loop srv m body page_num (a # as) w
                 = handle_response (page_num + 1) payload ?w1"
      by (simp add: call_claude_def Let_def)
    with handle_response_trace[of "page_num + 1" payload ?w1] w1 show ?thesis by auto
  next
    case (Raises e)
    let ?w2 = "sleep (of_int (2 ^ nat a)) (emit (PrintRateLimit (2 ^ nat a)) ?w1)"
    let ?w3 = "save_state page_num (log_error (page_num + 1) e ?w1)"
    have w2: "trace ?w2 = trace w @ [Request (page_num + 1), PrintRateLimit (2 ^ nat a),
                 Sleep (of_int (2 ^ nat a))]"
      by (simp add: world_defs)
    have w3: "trace ?w3 = trace w @ [Request (page_num + 1), PrintError (page_num + 1) e]"
      by (simp add: world_defs)
    from Raises have "attempt_loop srv m body page_num (a # as) w =
        (if e = RateLimitError then attempt_loop srv m body page_num as ?w2
         else if e = APIError then
           (if a = m - 1 then (Some e, ?w3) else attempt_loop srv m body page_num as ?w3)
         else (Some e, ?w1))"
      by (simp add: call_claude_def Let_def)
    with Cons.IH[of ?w2] Cons.IH[of ?w3] w1 w2 w3 show ?thesis by auto
  qed
qed

lemma page_loop_trace:
  "\<exists>es. trace (snd (page_loop srv pages total_pages m ps w)) =
          trace w @ (case ps of [] \<Rightarrow> [] | page_num # _ \<Rightarrow> [PrintPage (page_num + 1) total_pages])
          @ es"
proof (induction ps arbitrary: w)
  case Nil
  show ?case by simp
next
  case (Cons page_num ps)
  have ih: "\<exists>es. trace (snd (page_loop srv pages total_pages m ps v)) = trace v @ es" for v
    using Cons.IH[of v] by (metis append_assoc)
  let ?w1 = "emit (PrintPage (page_num + 1) total_pages) w"
  have w1: "trace ?w1 = trace w @ [PrintPage (page_num + 1) total_pages]"
    by (simp add: emit_def)
  have "\<exists>es. trace (snd (page_loop srv pages total_pages m (page_num # ps) w)) =
          trace w @ [PrintPage (page_num + 1) total_pages] @ es"
  proof (cases "pages_index pages page_num")
    case (Inl e)
    with w1 show ?thesis by (simp add: Let_def)
  next
    case (Inr body)
    show ?thesis
    proof (cases "body = [] \<or> length body < 50")
      case True
      let ?w2 = "save_state (page_num + 1) (log_skip (page_num + 1) ?w1)"
      have "trace ?w2 = trace w @ [PrintPage (page_num + 1) total_pages,
              PrintSkip (page_num + 1)]"
        by (simp add: world_defs)
      with ih[of ?w2] Inr True show ?thesis by (auto simp: Let_def)
    next
      case False
      obtain r w2 where a: "attempt_loop srv m body page_num (range_py 0 m) ?w1 = (r, w2)"
        by (cases "attempt_loop srv m body page_num (range_py 0 m) ?w1") auto
      from attempt_loop_trace[of srv m body page_num "range_py 0 m" ?w1] a w1
      obtain es where es: "trace w2 = trace w @ [PrintPage (page_num + 1) total_pages] @ es"
        by auto
      show ?thesis
      proof (cases r)
        case None
        let ?w3 = "sleep (1 / 2) w2"
        from es have "trace ?w3 = trace w @ [PrintPage (page_num + 1) total_pages] @ es
                        @ [Sleep (1 / 2)]"
          by (simp add: world_defs)
        with ih[of ?w3] Inr False a None show ?thesis
          by (auto simp: Let_def simp del: attempt_loop.simps)
      next
        case (Some e)
        with Inr False a es show ?thesis
          by (auto simp: Let_def simp del: attempt_loop.simps)
      qed
    qed
  qed
  then show ?case by simp
qed

text \<open>
  What a run without start page prints first, for a progress state \<open>p\<close> within the
  document: the message that it resumes from page \<open>p\<close> (when \<open>p > 1\<close>), the range, and
  page \<open>p\<close>.
\<close>

lemma resume_trace:
  assumes "state_file w = Some p" and "1 \<le> p" and "p \<le> int (length pages)"
  shows "\<exists>es. trace (snd (process_pdf srv pages None None w)) =
           trace w @ (if 1 < p then [PrintResuming p] else [])
           @ [PrintRange p (int (length pages)) (int (length pages)),
              PrintPage p (int (length pages))] @ es"
proof -
  let ?n = "int (length pages)"
  let ?w1 = "if 1 < p then emit (PrintResuming p) w else w"
  let ?w2 = "init_knowledge_base (emit (PrintRange p ?n ?n) ?w1)"
  let ?res = "page_loop srv pages ?n 3 (range_py (p - 1) ?n) ?w2"
  have w2: "trace ?w2 = trace w @ (if 1 < p then [PrintResuming p] else [])
              @ [PrintRange p ?n ?n]"
    by (simp add: world_defs)
  have r: "range_py (p - 1) ?n = (p - 1) # range_py p ?n"
    using assms(3) upto_rec1[of "p - 1" "?n - 1"] by (simp add: range_py_def)
  from page_loop_trace[of srv pages ?n 3 "range_py (p - 1) ?n" ?w2]
  obtain es where es: "trace (snd ?res) = trace ?w2 @ [PrintPage p ?n] @ es"
    unfolding r by auto
  have pp: "process_pdf srv pages None None w =
      (case ?res of (Some e, w3) \<Rightarrow> (Some e, w3) | (None, w3) \<Rightarrow> (None, emit PrintComplete w3))"
    using assms(1) by (simp add: process_pdf_def load_state_def Let_def)
  obtain x w3 where res: "?res = (x, w3)" by (cases ?res) auto
  show ?thesis
  proof (cases x)
    case None
    with pp res have "trace (snd (process_pdf srv pages None None w)) = trace w3 @ [PrintComplete]"
      by (simp add: emit_def)
    with es res w2 show ?thesis by simp
  next
    case (Some e)
    with pp res have "trace (snd (process_pdf srv pages None None w)) = trace w3"
      by simp
    with es res w2 show ?thesis by simp
  qed
qed


text \<open>
  Claim C1, amended. When \<open>process_pdf\<close> is called with no start page and the progress
  state holds a page number \<open>p\<close> of the document, the loop resumes at page \<open>p\<close> itself:
  the first page started on restart is the persisted value, so the page last recorded is
  processed again.
\<close>

theorem resume_starts_at_persisted_page:
  assumes "state_file w = Some p" and "1 \<le> p" and "p \<le> int (length pages)"
  shows "\<exists>ps. pages_started (trace (snd (process_pdf srv pages None None w))) =
           pages_started (trace w) @ p # ps"
proof -
  from resume_trace[OF assms, of srv] obtain es where
    "trace (snd (process_pdf srv pages None None w)) =
           trace w @ (if 1 < p then [PrintResuming p] else [])
           @ [PrintRange p (int (length pages)) (int (length pages)),
              PrintPage p (int (length pages))] @ es"
    by blast
  then have "pages_started (trace (snd (process_pdf srv pages None None w))) =
           pages_started (trace w) @ p # pages_started es"
    by (simp add: pages_started_append)
  then show ?thesis by blast
qed

theorem resume_starts_at_persisted_page_witness:
  "state_file after_two_pages = Some 2 \<and> (1::int) \<le> 2 \<and> 2 \<le> int (length three_pages)
   \<and> (\<exists>ps. pages_started (trace (snd (process_pdf always_api_error three_pages None None
                                         after_two_pages))) =
             pages_started (trace after_two_pages) @ 2 # ps)"
proof -
  have 1: "state_file after_two_pages = Some 2" by (simp add: after_two_pages_eq)
  have 2: "(1::int) \<le> 2" by simp
  have 3: "2 \<le> int (length three_pages)" by (simp add: three_pages_def)
  from resume_starts_at_persisted_page[OF 1 2 3, of always_api_error] 1 2 3
  show ?thesis by blast
qed


end
